theory Spec2Isabelle
  imports Main "HOL-Library.AList"
begin

section \<open>The eviction store of kioku (class LruCache of src/index.ts)\<close>

text \<open>
  Conventions of the embedding.
  \<^item> Keys are strings: the only instance of the class is \<open>LruCache<string, CacheEntry>\<close>.
  \<^item> The JavaScript \<open>Map\<close> that holds the records is an association list in iteration
    order (oldest first). \<open>Map.get\<close> is \<open>map_of\<close>, \<open>Map.delete\<close> is \<open>AList.delete\<close>,
    \<open>Map.set\<close> is \<open>AList.update\<close> (in place for a present key, appended for a new one),
    \<open>Map.size\<close> is \<open>length\<close> and \<open>Map.clear\<close> gives \<open>[]\<close>.
  \<^item> \<open>max\<close> and \<open>ttl\<close> are integers, as the data model of the specification has them, and
    \<open>Date.now()\<close> is an integer number of milliseconds. Every operation takes the clock
    reading \<open>now\<close> as an argument; one synchronous operation reads one value of the clock.
  \<^item> An absent optional property (\<open>max?\<close>, \<open>ttl?\<close>, \<open>expiresAt?\<close>) is \<open>None\<close>.
  \<^item> A method that mutates the store returns the new store next to its result.
\<close>

record CacheConfig =
  max_opt :: "int option"
  ttl_opt :: "int option"

record RequiredCacheConfig =
  max_cfg :: int
  ttl_cfg :: int

record 'v CacheEntryWrapper =
  wrapped_value :: 'v
  expiresAt :: "int option"

definition defaultOptions :: RequiredCacheConfig where
  "defaultOptions = \<lparr>max_cfg = 100, ttl_cfg = 5 * 60 * 1000\<rparr>"

record 'v LruCache =
  options :: RequiredCacheConfig
  items :: "(string \<times> 'v CacheEntryWrapper) list"
  hasTtl :: bool

text \<open>The constructor: \<open>{...defaultOptions, ...options}\<close>, then \<open>hasTtl = ttl > 0\<close>.\<close>

definition new_LruCache :: "CacheConfig \<Rightarrow> 'v LruCache" where
  "new_LruCache opts =
     (let cfg = \<lparr>max_cfg = (case max_opt opts of None \<Rightarrow> max_cfg defaultOptions | Some m \<Rightarrow> m),
                 ttl_cfg = (case ttl_opt opts of None \<Rightarrow> ttl_cfg defaultOptions | Some t \<Rightarrow> t)\<rparr>
      in \<lparr>options = cfg, items = [], hasTtl = (ttl_cfg cfg > 0)\<rparr>)"

definition LruCache_max :: "'v LruCache \<Rightarrow> int" where
  "LruCache_max c = max_cfg (options c)"

definition isExpired :: "'v CacheEntryWrapper \<Rightarrow> int \<Rightarrow> bool" where
  "isExpired entry now = (case expiresAt entry of None \<Rightarrow> False | Some e \<Rightarrow> e \<le> now)"

text \<open>
  \<open>pruneExpired\<close>: the \<open>for ... of this.items\<close> loop visits the records in order and deletes
  the expired ones by key. The first argument of the loop is what is left to visit.
\<close>

fun prune_loop ::
  "(string \<times> 'v CacheEntryWrapper) list \<Rightarrow> int \<Rightarrow> (string \<times> 'v CacheEntryWrapper) list
     \<Rightarrow> (string \<times> 'v CacheEntryWrapper) list" where
  "prune_loop [] now xs = xs"
| "prune_loop ((key, entry) # rest) now xs =
     prune_loop rest now (if isExpired entry now then AList.delete key xs else xs)"

definition pruneExpired :: "int \<Rightarrow> 'v LruCache \<Rightarrow> 'v LruCache" where
  "pruneExpired now c =
     (if length (items c) = 0 then c
      else c\<lparr>items := prune_loop (items c) now (items c)\<rparr>)"

text \<open>
  The \<open>while (toRemove > 0)\<close> loop of \<open>evictOverflow\<close>. The second argument is what the key
  iterator has still to yield; an exhausted iterator yields \<open>undefined\<close> and the loop breaks.
\<close>

fun evict_loop ::
  "int \<Rightarrow> string list \<Rightarrow> (string \<times> 'v CacheEntryWrapper) list
     \<Rightarrow> (string \<times> 'v CacheEntryWrapper) list" where
  "evict_loop toRemove [] xs = xs"
| "evict_loop toRemove (oldestKey # ks) xs =
     (if toRemove > 0 then evict_loop (toRemove - 1) ks (AList.delete oldestKey xs) else xs)"

definition evictOverflow :: "int \<Rightarrow> 'v LruCache \<Rightarrow> 'v LruCache" where
  "evictOverflow now c =
     (if max_cfg (options c) \<le> 0 then c\<lparr>items := []\<rparr>
      else
        let c1 = (if hasTtl c then pruneExpired now c else c);
            toRemove = int (length (items c1)) - max_cfg (options c1)
        in if toRemove > 0
           then c1\<lparr>items := evict_loop toRemove (map fst (items c1)) (items c1)\<rparr>
           else c1)"

text \<open>The getter \<open>size\<close> prunes when TTL is enabled, then reports \<open>items.size\<close>.\<close>

definition LruCache_size :: "int \<Rightarrow> 'v LruCache \<Rightarrow> nat \<times> 'v LruCache" where
  "LruCache_size now c =
     (let c1 = (if hasTtl c then pruneExpired now c else c) in (length (items c1), c1))"

text \<open>
  \<open>get\<close>. The test \<open>items.size > max * 0.9\<close> compares an integer with nine tenths of an
  integer; it is written here without the division, as \<open>10 * size > 9 * max\<close>.
\<close>

definition LruCache_get :: "string \<Rightarrow> int \<Rightarrow> 'v LruCache \<Rightarrow> 'v option \<times> 'v LruCache" where
  "LruCache_get key now c =
     (case map_of (items c) key of
        None \<Rightarrow> (None, c)
      | Some entry \<Rightarrow>
          if hasTtl c \<and> isExpired entry now
          then (None, c\<lparr>items := AList.delete key (items c)\<rparr>)
          else if 10 * int (length (items c)) > 9 * max_cfg (options c)
          then (Some (wrapped_value entry),
                c\<lparr>items := AList.update key entry (AList.delete key (items c))\<rparr>)
          else (Some (wrapped_value entry), c))"

definition LruCache_has :: "string \<Rightarrow> int \<Rightarrow> 'v LruCache \<Rightarrow> bool \<times> 'v LruCache" where
  "LruCache_has key now c =
     (case map_of (items c) key of
        None \<Rightarrow> (False, c)
      | Some entry \<Rightarrow>
          if hasTtl c \<and> isExpired entry now
          then (False, c\<lparr>items := AList.delete key (items c)\<rparr>)
          else (True, c))"

definition LruCache_set :: "string \<Rightarrow> 'v \<Rightarrow> int \<Rightarrow> 'v LruCache \<Rightarrow> 'v LruCache" where
  "LruCache_set key v now c =
     (let xs = AList.delete key (items c);
          entry = (if hasTtl c
                   then \<lparr>wrapped_value = v, expiresAt = Some (now + ttl_cfg (options c))\<rparr>
                   else \<lparr>wrapped_value = v, expiresAt = None\<rparr>)
      in evictOverflow now (c\<lparr>items := AList.update key entry xs\<rparr>))"

definition LruCache_delete :: "string \<Rightarrow> 'v LruCache \<Rightarrow> bool \<times> 'v LruCache" where
  "LruCache_delete key c =
     (key \<in> set (map fst (items c)), c\<lparr>items := AList.delete key (items c)\<rparr>)"

definition LruCache_clear :: "'v LruCache \<Rightarrow> 'v LruCache" where
  "LruCache_clear c = c\<lparr>items := []\<rparr>"

text \<open>
  \<open>entries\<close>, driven to its end as the \<open>for ... of\<close> of \<open>setup\<close> does: the pairs it yields,
  in order, and the store with the expired records it met deleted.
\<close>

fun entries_loop ::
  "(string \<times> 'v CacheEntryWrapper) list \<Rightarrow> int \<Rightarrow> 'v LruCache
     \<Rightarrow> (string \<times> 'v) list \<times> 'v LruCache" where
  "entries_loop [] now c = ([], c)"
| "entries_loop ((key, entry) # rest) now c =
     (if hasTtl c \<and> isExpired entry now
      then entries_loop rest now (c\<lparr>items := AList.delete key (items c)\<rparr>)
      else (let (ys, c') = entries_loop rest now c in ((key, wrapped_value entry) # ys, c')))"

definition LruCache_entries :: "int \<Rightarrow> 'v LruCache \<Rightarrow> (string \<times> 'v) list \<times> 'v LruCache" where
  "LruCache_entries now c = entries_loop (items c) now c"

text \<open>
  \<open>setup\<close> on the module variable \<open>cache\<close>: the argument is the store the variable holds,
  the result the store it holds afterwards.
\<close>

definition setup_cache :: "CacheConfig \<Rightarrow> int \<Rightarrow> 'v LruCache \<Rightarrow> 'v LruCache" where
  "setup_cache opts now cache =
     foldl (\<lambda>newCache (key, v). LruCache_set key v now newCache)
           (new_LruCache opts) (fst (LruCache_entries now cache))"

section \<open>Sequences of store operations\<close>

text \<open>
  The states a store can be in are those that a sequence of method calls reaches from the
  constructor. \<open>OpSize\<close> is a read of the getter \<open>size\<close> and \<open>OpEntries\<close> a complete
  iteration of \<open>entries()\<close>; both prune.
\<close>

datatype 'v store_op =
    OpSet string 'v int
  | OpGet string int
  | OpHas string int
  | OpDelete string
  | OpClear
  | OpSize int
  | OpEntries int

fun apply_op :: "'v store_op \<Rightarrow> 'v LruCache \<Rightarrow> 'v LruCache" where
  "apply_op (OpSet key v now) c = LruCache_set key v now c"
| "apply_op (OpGet key now) c = snd (LruCache_get key now c)"
| "apply_op (OpHas key now) c = snd (LruCache_has key now c)"
| "apply_op (OpDelete key) c = snd (LruCache_delete key c)"
| "apply_op OpClear c = LruCache_clear c"
| "apply_op (OpSize now) c = snd (LruCache_size now c)"
| "apply_op (OpEntries now) c = snd (LruCache_entries now c)"

definition run_ops :: "'v store_op list \<Rightarrow> 'v LruCache \<Rightarrow> 'v LruCache" where
  "run_ops ops c = foldl (\<lambda>c' op. apply_op op c') c ops"

fun sets_key :: "string \<Rightarrow> 'v store_op \<Rightarrow> bool" where
  "sets_key key (OpSet key' v now) = (key = key')"
| "sets_key key _ = False"

text \<open>Inserting a list of (key, payload, time of the call) triples, one \<open>set\<close> each.\<close>

definition insert_all :: "(string \<times> 'v \<times> int) list \<Rightarrow> 'v LruCache \<Rightarrow> 'v LruCache" where
  "insert_all kvts c = run_ops (map (\<lambda>(key, v, now). OpSet key v now) kvts) c"

text \<open>The record that \<open>set(key, v)\<close> called at \<open>now\<close> writes into store \<open>c\<close>.\<close>

definition record_of ::
  "'v LruCache \<Rightarrow> string \<times> 'v \<times> int \<Rightarrow> string \<times> 'v CacheEntryWrapper" where
  "record_of c = (\<lambda>(key, v, now).
     (key, \<lparr>wrapped_value = v,
            expiresAt = (if hasTtl c then Some (now + ttl_cfg (options c)) else None)\<rparr>))"

text \<open>
  No record written at one of the times \<open>ts\<close> has expired at another of them
  (trivially so when TTL is disabled).
\<close>

definition no_expiry :: "'v LruCache \<Rightarrow> int list \<Rightarrow> bool" where
  "no_expiry c ts =
     (hasTtl c \<longrightarrow> (\<forall>t \<in> set ts. \<forall>t' \<in> set ts. t' < t + ttl_cfg (options c)))"

text \<open>The records of a store that \<open>entries()\<close> called at \<open>now\<close> yields.\<close>

definition live_items :: "int \<Rightarrow> 'v LruCache \<Rightarrow> (string \<times> 'v CacheEntryWrapper) list" where
  "live_items now c = filter (\<lambda>p. \<not> (hasTtl c \<and> isExpired (snd p) now)) (items c)"

section \<open>JavaScript values\<close>

text \<open>
  The values a memoized function can take and return.
  \<^item> A string is a list of code units; the model has the code units below 256.
  \<^item> A number is \<open>NaN\<close>, negative zero, or any other number; the code does nothing with
    such a number but print it in a template literal, so it is carried by that text
    (\<open>Number::toString\<close> of the language, which maps different numbers to different texts).
  \<^item> A symbol is its identity together with the key \<open>Symbol.keyFor\<close> reports for it, if
    any, and its description, if any; two symbols that differ in one of the three are
    different symbols.
  \<^item> A function or an object has an identity. An object carries the four properties that
    the classifiers \<open>isPromise\<close>, \<open>isGenerator\<close> and \<open>isAsyncGenerator\<close> look at.
  \<^item> \<open>JLibraryPromise\<close> is a promise created inside \<open>cachePromiseResult\<close>.
\<close>

datatype jsnumber = NaN | NegativeZero | OtherNumber string

record shape =
  callableThen :: bool
  callableNext :: bool
  hasIterator :: bool
  hasAsyncIterator :: bool

datatype objref = UserObject nat | LibraryPromise nat

datatype jsvalue =
    JNull
  | JUndefined
  | JBoolean bool
  | JNumber jsnumber
  | JBigInt int
  | JString string
  | JSymbol nat "string option" "string option"
  | JFunction nat
  | JObject nat shape
  | JLibraryPromise nat

text \<open>The module-private symbol \<open>undefinedValue\<close> is the only value outside \<open>jsvalue\<close>.\<close>

datatype marshalled = UndefinedValue | Plain jsvalue

datatype CacheEntry =
    ValueEntry marshalled
  | PromiseEntry jsvalue
  | GeneratorEntry jsvalue
  | AsyncGeneratorEntry jsvalue

text \<open>\<open>value ?? undefinedValue\<close>: the right operand is taken for \<open>null\<close> and for \<open>undefined\<close>.\<close>

fun marshallUndefined :: "jsvalue \<Rightarrow> marshalled" where
  "marshallUndefined JNull = UndefinedValue"
| "marshallUndefined JUndefined = UndefinedValue"
| "marshallUndefined v = Plain v"

fun unmarshallUndefined :: "marshalled \<Rightarrow> jsvalue" where
  "unmarshallUndefined UndefinedValue = JUndefined"
| "unmarshallUndefined (Plain v) = v"

fun isPromise :: "jsvalue \<Rightarrow> bool" where
  "isPromise (JObject r sh) = callableThen sh"
| "isPromise (JLibraryPromise n) = True"
| "isPromise _ = False"

fun isGenerator :: "jsvalue \<Rightarrow> bool" where
  "isGenerator (JObject r sh) = (hasIterator sh \<and> callableNext sh \<and> \<not> hasAsyncIterator sh)"
| "isGenerator _ = False"

fun isAsyncGenerator :: "jsvalue \<Rightarrow> bool" where
  "isAsyncGenerator (JObject r sh) = (hasAsyncIterator sh \<and> callableNext sh)"
| "isAsyncGenerator _ = False"

section \<open>Text of integers and of quoted strings\<close>

text \<open>Decimal digits, as a template literal prints a counter or a bigint.\<close>

function show_nat :: "nat \<Rightarrow> string" where
  "show_nat n =
     (if n < 10 then [''0123456789'' ! n]
      else show_nat (n div 10) @ [''0123456789'' ! (n mod 10)])"
  by pat_completeness auto
termination
  by (relation "measure id") auto

declare show_nat.simps [simp del]

definition show_int :: "int \<Rightarrow> string" where
  "show_int i = (if i < 0 then CHR ''-'' # show_nat (nat (- i)) else show_nat (nat i))"

text \<open>
  \<open>JSON.stringify\<close> applied to a string (QuoteJSONString of ECMA-262): the string between
  double quotes, with the double quote, the backslash and the control characters escaped
  and every other code unit kept as it is.
\<close>

definition quote_unit :: "char \<Rightarrow> string" where
  "quote_unit c =
     (if c = CHR 0x08 then [CHR 0x5C, CHR ''b'']
      else if c = CHR 0x09 then [CHR 0x5C, CHR ''t'']
      else if c = CHR 0x0A then [CHR 0x5C, CHR ''n'']
      else if c = CHR 0x0C then [CHR 0x5C, CHR ''f'']
      else if c = CHR 0x0D then [CHR 0x5C, CHR ''r'']
      else if c = CHR 0x22 then [CHR 0x5C, CHR 0x22]
      else if c = CHR 0x5C then [CHR 0x5C, CHR 0x5C]
      else if of_char c < (32::nat)
      then [CHR 0x5C, CHR ''u'', CHR ''0'', CHR ''0'',
            ''0123456789abcdef'' ! (of_char c div 16), ''0123456789abcdef'' ! (of_char c mod 16)]
      else [c])"

definition JSON_stringify :: "string \<Rightarrow> string" where
  "JSON_stringify s = CHR 0x22 # concat (map quote_unit s) @ [CHR 0x22]"

text \<open>\<open>Array.prototype.join\<close> on a list of strings.\<close>

fun join :: "string \<Rightarrow> string list \<Rightarrow> string" where
  "join sep [] = []"
| "join sep [x] = x"
| "join sep (x # y # ys) = x @ sep @ join sep (y # ys)"

section \<open>The module state\<close>

text \<open>
  The module variables of src/index.ts (the store \<open>cache\<close>, the three identity tables and
  their counters), and what the model adds to them:
  \<^item> \<open>promises\<close>, the state of each promise created inside \<open>cachePromiseResult\<close>, and
    \<open>nextPromise\<close>, the next free identity;
  \<^item> \<open>user\<close>, the state of the calling program, which the wrapped functions read and write;
  \<^item> \<open>calls\<close>, a log of every call of a wrapped function made by a memoized function
    (identity of the function and arguments), oldest first.
  A weak map is a map here: when the garbage collector drops an association is not modelled.
\<close>

datatype promise_state =
    Awaiting jsvalue string
  | Adopting nat
  | Fulfilled jsvalue
  | Rejected jsvalue

record 'u world =
  cache :: "CacheEntry LruCache"
  objectIds :: "objref \<rightharpoonup> string"
  nextObjectId :: nat
  functionIds :: "nat \<rightharpoonup> string"
  nextFunctionId :: nat
  symbolIds :: "(nat \<times> string option \<times> string option) \<rightharpoonup> string"
  nextSymbolId :: nat
  promises :: "nat \<rightharpoonup> promise_state"
  nextPromise :: nat
  user :: 'u
  calls :: "(nat \<times> jsvalue list) list"

text \<open>The state after the module is loaded: \<open>new LruCache(defaultOptions)\<close>, empty tables.\<close>

definition initial_world :: "'u \<Rightarrow> 'u world" where
  "initial_world u =
     \<lparr>cache = new_LruCache \<lparr>max_opt = Some (max_cfg defaultOptions),
                             ttl_opt = Some (ttl_cfg defaultOptions)\<rparr>,
      objectIds = Map.empty, nextObjectId = 0,
      functionIds = Map.empty, nextFunctionId = 0,
      symbolIds = Map.empty, nextSymbolId = 0,
      promises = Map.empty, nextPromise = 0,
      user = u, calls = []\<rparr>"

section \<open>The identity registry\<close>

text \<open>
  \<open>if (existing)\<close> tests a string for truthiness: an association to the empty string
  counts as none.
\<close>

definition idForObject :: "objref \<Rightarrow> 'u world \<Rightarrow> string \<times> 'u world" where
  "idForObject v w =
     (case objectIds w v of
        Some existing \<Rightarrow>
          if existing \<noteq> [] then (existing, w)
          else (let id = ''obj:'' @ show_nat (nextObjectId w)
                in (id, w\<lparr>nextObjectId := nextObjectId w + 1,
                          objectIds := (objectIds w)(v \<mapsto> id)\<rparr>))
      | None \<Rightarrow>
          (let id = ''obj:'' @ show_nat (nextObjectId w)
           in (id, w\<lparr>nextObjectId := nextObjectId w + 1,
                     objectIds := (objectIds w)(v \<mapsto> id)\<rparr>)))"

definition idForFunction :: "nat \<Rightarrow> 'u world \<Rightarrow> string \<times> 'u world" where
  "idForFunction v w =
     (case functionIds w v of
        Some existing \<Rightarrow>
          if existing \<noteq> [] then (existing, w)
          else (let id = ''fn:'' @ show_nat (nextFunctionId w)
                in (id, w\<lparr>nextFunctionId := nextFunctionId w + 1,
                          functionIds := (functionIds w)(v \<mapsto> id)\<rparr>))
      | None \<Rightarrow>
          (let id = ''fn:'' @ show_nat (nextFunctionId w)
           in (id, w\<lparr>nextFunctionId := nextFunctionId w + 1,
                     functionIds := (functionIds w)(v \<mapsto> id)\<rparr>)))"

text \<open>
  \<open>idForSymbol\<close>: a recorded id first, then the key of the global symbol registry (an empty
  key is falsy and falls through), then a fresh id with the description or \<open>''\<close>.
\<close>

definition freshSymbolId ::
  "nat \<times> string option \<times> string option \<Rightarrow> 'u world \<Rightarrow> string \<times> 'u world" where
  "freshSymbolId v w =
     (let id = ''symbol:'' @ show_nat (nextSymbolId w) @ '':''
                 @ (case snd (snd v) of None \<Rightarrow> [] | Some d \<Rightarrow> d)
      in (id, w\<lparr>nextSymbolId := nextSymbolId w + 1,
                symbolIds := (symbolIds w)(v \<mapsto> id)\<rparr>))"

definition symbolByKey ::
  "nat \<times> string option \<times> string option \<Rightarrow> 'u world \<Rightarrow> string \<times> 'u world" where
  "symbolByKey v w =
     (case fst (snd v) of
        Some globalKey \<Rightarrow>
          if globalKey \<noteq> [] then (''gSymbol:'' @ globalKey, w) else freshSymbolId v w
      | None \<Rightarrow> freshSymbolId v w)"

definition idForSymbol ::
  "nat \<times> string option \<times> string option \<Rightarrow> 'u world \<Rightarrow> string \<times> 'u world" where
  "idForSymbol v w =
     (case symbolIds w v of
        Some existing \<Rightarrow> if existing \<noteq> [] then (existing, w) else symbolByKey v w
      | None \<Rightarrow> symbolByKey v w)"

section \<open>The argument key serializer\<close>

fun serializeArgument :: "jsvalue \<Rightarrow> 'u world \<Rightarrow> string \<times> 'u world" where
  "serializeArgument JNull w = (''null'', w)"
| "serializeArgument JUndefined w = (''u'', w)"
| "serializeArgument (JBoolean b) w = (if b then ''b:1'' else ''b:0'', w)"
| "serializeArgument (JNumber n) w =
     (case n of
        NaN \<Rightarrow> ''n:NaN''
      | NegativeZero \<Rightarrow> ''n:-0''
      | OtherNumber text \<Rightarrow> ''n:'' @ text, w)"
| "serializeArgument (JBigInt i) w = (''B:'' @ show_int i, w)"
| "serializeArgument (JString s) w =
     (if CHR ''|'' \<in> set s \<or> CHR '':'' \<in> set s \<or> length s > 100
      then ''s:'' @ JSON_stringify s
      else ''s:'' @ s, w)"
| "serializeArgument (JSymbol r globalKey description) w =
     idForSymbol (r, globalKey, description) w"
| "serializeArgument (JFunction r) w = idForFunction r w"
| "serializeArgument (JObject r sh) w = idForObject (UserObject r) w"
| "serializeArgument (JLibraryPromise n) w = idForObject (LibraryPromise n) w"

text \<open>
  The encoding that the tables of a state already determine for a value, if they do:
  \<open>serializeArgument\<close> then returns it and changes nothing. Used to show that a key, once
  computed, is computed again the same.
\<close>

fun known_id :: "jsvalue \<Rightarrow> 'u world \<Rightarrow> string option" where
  "known_id (JSymbol r globalKey description) w =
     (case symbolIds w (r, globalKey, description) of
        Some existing \<Rightarrow>
          if existing \<noteq> [] then Some existing
          else (case globalKey of
                  Some k \<Rightarrow> if k \<noteq> [] then Some (''gSymbol:'' @ k) else None
                | None \<Rightarrow> None)
      | None \<Rightarrow>
          (case globalKey of
             Some k \<Rightarrow> if k \<noteq> [] then Some (''gSymbol:'' @ k) else None
           | None \<Rightarrow> None))"
| "known_id (JFunction r) w =
     (case functionIds w r of
        Some existing \<Rightarrow> if existing \<noteq> [] then Some existing else None
      | None \<Rightarrow> None)"
| "known_id (JObject r sh) w =
     (case objectIds w (UserObject r) of
        Some existing \<Rightarrow> if existing \<noteq> [] then Some existing else None
      | None \<Rightarrow> None)"
| "known_id (JLibraryPromise n) w =
     (case objectIds w (LibraryPromise n) of
        Some existing \<Rightarrow> if existing \<noteq> [] then Some existing else None
      | None \<Rightarrow> None)"
| "known_id v w = Some (fst (serializeArgument v w))"

definition same_registry :: "'u world \<Rightarrow> 'u world \<Rightarrow> bool" where
  "same_registry w w' =
     (objectIds w = objectIds w' \<and> nextObjectId w = nextObjectId w'
      \<and> functionIds w = functionIds w' \<and> nextFunctionId w = nextFunctionId w'
      \<and> symbolIds w = symbolIds w' \<and> nextSymbolId w = nextSymbolId w')"

text \<open>\<open>arguments_.map(arg => serializeArgument(arg))\<close>, left to right.\<close>

fun serializeArguments :: "jsvalue list \<Rightarrow> 'u world \<Rightarrow> string list \<times> 'u world" where
  "serializeArguments [] w = ([], w)"
| "serializeArguments (a # as) w =
     (let (x, w1) = serializeArgument a w;
          (xs, w2) = serializeArguments as w1
      in (x # xs, w2))"

text \<open>The key of a call, as the memoized function computes it.\<close>

definition callKey :: "string \<Rightarrow> jsvalue list \<Rightarrow> 'u world \<Rightarrow> string \<times> 'u world" where
  "callKey functionKey arguments w =
     (if length arguments = 0 then (functionKey, w)
      else (let (xs, w1) = serializeArguments arguments w
            in (functionKey @ ''|'' @ join ''|'' xs, w1)))"

section \<open>Result wrappers and the memoization facade\<close>

text \<open>
  A call either returns a value or throws one. A wrapped function has an identity (the key
  of the weak map \<open>functionIds\<close>) and a body, which reads the arguments and the state of the
  calling program and may change that state; it does not call into this module itself.
  The \<open>this\<close> of a call, which the memoized function forwards and which takes no part in
  the key, is not modelled.
\<close>

datatype completion = Return jsvalue | Throw jsvalue

record 'u MemoizableFunction =
  fn_ref :: nat
  fn_body :: "jsvalue list \<Rightarrow> 'u \<Rightarrow> completion \<times> 'u"

definition cacheSyncResult :: "string \<Rightarrow> jsvalue \<Rightarrow> int \<Rightarrow> 'u world \<Rightarrow> jsvalue \<times> 'u world" where
  "cacheSyncResult key result now w =
     (result, w\<lparr>cache := LruCache_set key (ValueEntry (marshallUndefined result)) now (cache w)\<rparr>)"

text \<open>
  \<open>cachePromiseResult\<close>. The inner \<open>async\<close> function runs up to \<open>await promise\<close> and leaves
  the pending promise \<open>wrapped\<close>, which is stored. \<open>cachePromiseResult\<close> is itself \<open>async\<close>:
  what its caller receives is a second promise, resolved with \<open>wrapped\<close>.
\<close>

definition cachePromiseResult :: "string \<Rightarrow> jsvalue \<Rightarrow> int \<Rightarrow> 'u world \<Rightarrow> jsvalue \<times> 'u world" where
  "cachePromiseResult key promise now w =
     (let n = nextPromise w;
          wrapped = JLibraryPromise n;
          w1 = w\<lparr>promises := (promises w)(n \<mapsto> Awaiting promise key), nextPromise := n + 1\<rparr>;
          w2 = w1\<lparr>cache := LruCache_set key (PromiseEntry wrapped) now (cache w1)\<rparr>;
          m = nextPromise w2
      in (JLibraryPromise m,
          w2\<lparr>promises := (promises w2)(m \<mapsto> Adopting n), nextPromise := m + 1\<rparr>))"

definition cacheGeneratorResult :: "string \<Rightarrow> jsvalue \<Rightarrow> int \<Rightarrow> 'u world \<Rightarrow> jsvalue \<times> 'u world" where
  "cacheGeneratorResult key generator now w =
     (generator, w\<lparr>cache := LruCache_set key (GeneratorEntry generator) now (cache w)\<rparr>)"

definition cacheAsyncGeneratorResult :: "string \<Rightarrow> jsvalue \<Rightarrow> int \<Rightarrow> 'u world \<Rightarrow> jsvalue \<times> 'u world" where
  "cacheAsyncGeneratorResult key generator now w =
     (generator, w\<lparr>cache := LruCache_set key (AsyncGeneratorEntry generator) now (cache w)\<rparr>)"

text \<open>
  \<open>memoize(function_)\<close> looks the id of the function up once; the memoized function is the
  closure over the function and that \<open>functionKey\<close>. Copying the metadata is not modelled.
\<close>

definition memoize :: "'u MemoizableFunction \<Rightarrow> 'u world \<Rightarrow> string \<times> 'u world" where
  "memoize func w = idForFunction (fn_ref func) w"

text \<open>What the \<open>switch (cached.kind)\<close> of the memoized function returns on a hit.\<close>

fun cached_result :: "CacheEntry \<Rightarrow> jsvalue" where
  "cached_result (ValueEntry v) = unmarshallUndefined v"
| "cached_result (PromiseEntry v) = v"
| "cached_result (GeneratorEntry v) = v"
| "cached_result (AsyncGeneratorEntry v) = v"

text \<open>
  One call of the memoized function. \<open>now\<close> is the clock when the store is probed and
  \<open>later\<close> the clock when the result is stored: the wrapped function runs in between.
\<close>

definition memoized ::
  "'u MemoizableFunction \<Rightarrow> string \<Rightarrow> jsvalue list \<Rightarrow> int \<Rightarrow> int \<Rightarrow> 'u world
     \<Rightarrow> completion \<times> 'u world" where
  "memoized func functionKey arguments now later w =
     (let (key, w1) = callKey functionKey arguments w;
          (cached, c) = LruCache_get key now (cache w1);
          w2 = w1\<lparr>cache := c\<rparr>
      in case cached of
           Some entry \<Rightarrow> (Return (cached_result entry), w2)
         | None \<Rightarrow>
             (let (outcome, u) = fn_body func arguments (user w2);
                  w3 = w2\<lparr>user := u, calls := calls w2 @ [(fn_ref func, arguments)]\<rparr>
              in case outcome of
                   Throw e \<Rightarrow> (Throw e, w3)
                 | Return result \<Rightarrow>
                     (let (r, w4) =
                        (if isPromise result then cachePromiseResult key result later w3
                         else if isAsyncGenerator result
                         then cacheAsyncGeneratorResult key result later w3
                         else if isGenerator result then cacheGeneratorResult key result later w3
                         else cacheSyncResult key result later w3)
                      in (Return r, w4))))"

text \<open>
  The wrapped function in general. \<open>function_.call(this, ...arguments_)\<close> runs code of the
  calling program, which may itself call into this module (another memoized function, the
  memoized function itself, \<open>setup\<close>, \<open>clearCache\<close>) before it returns or throws. Such a
  function is a body over the whole state: it starts in the state the lookup left and
  ends in the state it leaves. The call is logged when the body is entered.
  \<open>memoized_reentrant\<close> is the memoized function over such a body; \<open>memoized\<close> above is
  the case of a body that reads and writes the state of the calling program only
  (lemma \<open>memoized_as_reentrant\<close>).
\<close>

record 'u ModuleFunction =
  mf_ref :: nat
  mf_body :: "jsvalue list \<Rightarrow> 'u world \<Rightarrow> completion \<times> 'u world"

definition memoized_reentrant ::
  "'u ModuleFunction \<Rightarrow> string \<Rightarrow> jsvalue list \<Rightarrow> int \<Rightarrow> int \<Rightarrow> 'u world
     \<Rightarrow> completion \<times> 'u world" where
  "memoized_reentrant func functionKey arguments now later w =
     (let (key, w1) = callKey functionKey arguments w;
          (cached, c) = LruCache_get key now (cache w1);
          w2 = w1\<lparr>cache := c\<rparr>
      in case cached of
           Some entry \<Rightarrow> (Return (cached_result entry), w2)
         | None \<Rightarrow>
             (let (outcome, w3) =
                    mf_body func arguments
                      (w2\<lparr>calls := calls w2 @ [(mf_ref func, arguments)]\<rparr>)
              in case outcome of
                   Throw e \<Rightarrow> (Throw e, w3)
                 | Return result \<Rightarrow>
                     (let (r, w4) =
                        (if isPromise result then cachePromiseResult key result later w3
                         else if isAsyncGenerator result
                         then cacheAsyncGeneratorResult key result later w3
                         else if isGenerator result then cacheGeneratorResult key result later w3
                         else cacheSyncResult key result later w3)
                      in (Return r, w4))))"

text \<open>A function that touches only the state of the calling program, as a body over the whole state.\<close>

definition as_module_function :: "'u MemoizableFunction \<Rightarrow> 'u ModuleFunction" where
  "as_module_function func =
     \<lparr>mf_ref = fn_ref func,
      mf_body = (\<lambda>arguments w.
         (fst (fn_body func arguments (user w)),
          w\<lparr>user := snd (fn_body func arguments (user w))\<rparr>))\<rparr>"

text \<open>The state in which the wrapped function starts when the lookup has missed.\<close>

definition call_start ::
  "'u ModuleFunction \<Rightarrow> string \<Rightarrow> jsvalue list \<Rightarrow> int \<Rightarrow> 'u world \<Rightarrow> 'u world" where
  "call_start func functionKey arguments now w =
     (snd (callKey functionKey arguments w))
       \<lparr>cache := snd (LruCache_get (fst (callKey functionKey arguments w)) now (cache w)),
        calls := calls w @ [(mf_ref func, arguments)]\<rparr>"


text \<open>
  The continuation of the inner \<open>async\<close> function of promise \<open>n\<close>, run when the promise it
  awaits has settled: \<open>Inr v\<close> is fulfilment with \<open>v\<close>, \<open>Inl e\<close> rejection with \<open>e\<close>.
\<close>

definition resume :: "nat \<Rightarrow> jsvalue + jsvalue \<Rightarrow> 'u world \<Rightarrow> 'u world" where
  "resume n outcome w =
     (case promises w n of
        Some (Awaiting promise key) \<Rightarrow>
          (case outcome of
             Inr v \<Rightarrow> w\<lparr>promises := (promises w)(n \<mapsto> Fulfilled v)\<rparr>
           | Inl e \<Rightarrow> w\<lparr>cache := snd (LruCache_delete key (cache w)),
                         promises := (promises w)(n \<mapsto> Rejected e)\<rparr>)
      | _ \<Rightarrow> w)"

text \<open>
  What a caller that awaits a promise of this module gets: a promise resolved with another
  one follows it. \<open>Some (Awaiting p key)\<close> is a promise still pending.
\<close>

fun resolution :: "'u world \<Rightarrow> jsvalue \<Rightarrow> promise_state option" where
  "resolution w (JLibraryPromise m) =
     (case promises w m of Some (Adopting n) \<Rightarrow> promises w n | st \<Rightarrow> st)"
| "resolution w _ = None"

section \<open>The public accessors\<close>

definition setup_world :: "CacheConfig \<Rightarrow> int \<Rightarrow> 'u world \<Rightarrow> 'u world" where
  "setup_world opts now w = w\<lparr>cache := setup_cache opts now (cache w)\<rparr>"

definition clearCache :: "'u world \<Rightarrow> 'u world" where
  "clearCache w = w\<lparr>cache := LruCache_clear (cache w)\<rparr>"

definition getCacheStats :: "int \<Rightarrow> 'u world \<Rightarrow> (nat \<times> int) \<times> 'u world" where
  "getCacheStats now w =
     (let (n, c) = LruCache_size now (cache w) in ((n, LruCache_max c), w\<lparr>cache := c\<rparr>))"

section \<open>Wrapped functions used as concrete inputs\<close>

text \<open>\<open>() => null\<close>, with no state of its own.\<close>

definition returns_null :: "jsvalue list \<Rightarrow> unit \<Rightarrow> completion \<times> unit" where
  "returns_null arguments u = (Return JNull, u)"

text \<open>
  A function over a counter of its own calls: the first call returns \<open>1\<close>, every later
  call throws.
\<close>

definition succeeds_once :: "jsvalue list \<Rightarrow> nat \<Rightarrow> completion \<times> nat" where
  "succeeds_once arguments u =
     (if u = 0 then (Return (JNumber (OtherNumber ''1'')), Suc u)
      else (Throw (JString ''boom''), Suc u))"

text \<open>
  An \<open>async\<close> function over a counter of its own calls: every call returns a new pending
  promise, whose identity is the value of the counter.
\<close>

definition returns_promise :: "jsvalue list \<Rightarrow> nat \<Rightarrow> completion \<times> nat" where
  "returns_promise arguments u =
     (Return (JObject u \<lparr>callableThen = True, callableNext = False,
                         hasIterator = False, hasAsyncIterator = False\<rparr>), Suc u)"

text \<open>
  Two functions of a program without state of its own: \<open>h = x => 1\<close>, and
  \<open>g = x => { mh(x); throw 'boom' }\<close>, where \<open>mh\<close> is \<open>memoize(h)\<close> with the function key
  \<open>fn:1\<close> and the call of \<open>mh\<close> reads the clock at 1.
\<close>

definition returns_one :: "jsvalue list \<Rightarrow> unit world \<Rightarrow> completion \<times> unit world" where
  "returns_one arguments w = (Return (JNumber (OtherNumber ''1'')), w)"

definition calls_then_throws :: "jsvalue list \<Rightarrow> unit world \<Rightarrow> completion \<times> unit world" where
  "calls_then_throws arguments w =
     (Throw (JString ''boom''),
      snd (memoized_reentrant \<lparr>mf_ref = 1, mf_body = returns_one\<rparr> ''fn:1'' arguments 1 1 w))"


section \<open>Lemmas about the store\<close>

subsection \<open>The map operations and the two loops\<close>

lemma update_fresh: "k \<notin> fst ` set xs \<Longrightarrow> AList.update k v xs = xs @ [(k, v)]"
  by (induction xs) auto

lemma update_delete_append:
  "AList.update k v (AList.delete k xs) = AList.delete k xs @ [(k, v)]"
  by (rule update_fresh) (simp add: AList.delete_notin_dom)

lemma prune_loop_filter:
  "prune_loop ys now xs =
     filter (\<lambda>p. \<not> (\<exists>e. (fst p, e) \<in> set ys \<and> isExpired e now)) xs"
proof (induction ys now xs rule: prune_loop.induct)
  case (1 now xs)
  then show ?case by simp
next
  case (2 key entry rest now xs)
  show ?case
    unfolding prune_loop.simps 2
    by (auto simp: AList.delete_eq intro!: filter_cong)
qed

lemma prune_loop_distinct:
  assumes "distinct (map fst xs)"
  shows "prune_loop xs now xs = filter (\<lambda>p. \<not> isExpired (snd p) now) xs"
proof -
  have "\<And>p. p \<in> set xs \<Longrightarrow>
          (\<exists>e. (fst p, e) \<in> set xs \<and> isExpired e now) = isExpired (snd p) now"
    using assms by (metis eq_key_imp_eq_value prod.collapse)
  then show ?thesis
    unfolding prune_loop_filter by (auto intro!: filter_cong)
qed

lemma evict_loop_filter:
  "evict_loop n ks xs = filter (\<lambda>p. fst p \<notin> set (take (nat n) ks)) xs"
proof (induction n ks xs rule: evict_loop.induct)
  case (1 n xs)
  then show ?case by simp
next
  case (2 n k ks xs)
  show ?case
  proof (cases "n > 0")
    case True
    then have "nat n = Suc (nat (n - 1))" by simp
    with True 2 show ?thesis
      by (auto simp: AList.delete_eq intro!: filter_cong)
  next
    case False
    then show ?thesis by simp
  qed
qed

lemma filter_notin_take:
  "distinct (map fst xs) \<Longrightarrow>
     filter (\<lambda>p. fst p \<notin> set (take n (map fst xs))) xs = drop n xs"
proof (induction xs arbitrary: n)
  case Nil
  then show ?case by simp
next
  case (Cons x xs)
  show ?case
  proof (cases n)
    case 0
    then show ?thesis by simp
  next
    case (Suc m)
    have "filter (\<lambda>p. fst p \<notin> set (take (Suc m) (map fst (x # xs)))) (x # xs)
          = filter (\<lambda>p. fst p \<notin> set (take m (map fst xs))) xs"
    proof -
      have "fst p \<noteq> fst x" if "p \<in> set xs" for p
        using that Cons.prems by (auto simp: image_iff)
      then show ?thesis
        by (auto intro!: filter_cong)
    qed
    then show ?thesis using Cons Suc by simp
  qed
qed

lemma evict_loop_drop:
  "distinct (map fst xs) \<Longrightarrow> evict_loop n (map fst xs) xs = drop (nat n) xs"
  by (simp add: evict_loop_filter filter_notin_take)

subsection \<open>Operation sequences\<close>

lemma run_ops_Nil [simp]: "run_ops [] c = c"
  by (simp add: run_ops_def)

lemma run_ops_snoc [simp]: "run_ops (ops @ [op]) c = apply_op op (run_ops ops c)"
  by (simp add: run_ops_def)

subsection \<open>options and hasTtl never change\<close>

lemma pruneExpired_fields [simp]:
  "options (pruneExpired now c) = options c" "hasTtl (pruneExpired now c) = hasTtl c"
  by (simp_all add: pruneExpired_def)

lemma evictOverflow_fields [simp]:
  "options (evictOverflow now c) = options c" "hasTtl (evictOverflow now c) = hasTtl c"
  by (simp_all add: evictOverflow_def Let_def)

lemma entries_loop_fields:
  "options (snd (entries_loop ys now c)) = options c \<and> hasTtl (snd (entries_loop ys now c)) = hasTtl c"
  by (induction ys now c rule: entries_loop.induct) (auto split: prod.splits)

lemma apply_op_fields [simp]:
  "options (apply_op op c) = options c" "hasTtl (apply_op op c) = hasTtl c"
  by (cases op; simp add: LruCache_set_def LruCache_get_def LruCache_has_def LruCache_delete_def
        LruCache_clear_def LruCache_size_def LruCache_entries_def entries_loop_fields Let_def
        split: option.splits)+

lemma run_ops_fields [simp]:
  "options (run_ops ops c) = options c" "hasTtl (run_ops ops c) = hasTtl c"
  by (induction ops rule: rev_induct) simp_all

lemma new_LruCache_simps [simp]:
  "items (new_LruCache opts) = []"
  "options (new_LruCache opts) =
     \<lparr>max_cfg = (case max_opt opts of None \<Rightarrow> 100 | Some m \<Rightarrow> m),
      ttl_cfg = (case ttl_opt opts of None \<Rightarrow> 300000 | Some t \<Rightarrow> t)\<rparr>"
  "hasTtl (new_LruCache opts) = (0 < (case ttl_opt opts of None \<Rightarrow> 300000 | Some t \<Rightarrow> t))"
  by (simp_all add: new_LruCache_def Let_def defaultOptions_def split: option.splits)

subsection \<open>sizes\<close>

lemma length_delete_less:
  "map_of xs k = Some e \<Longrightarrow> length (AList.delete k xs) < length xs"
proof -
  assume "map_of xs k = Some e"
  then have "(k, e) \<in> set xs" by (rule map_of_SomeD)
  then show ?thesis
    unfolding AList.delete_eq by (intro length_filter_less[where x="(k, e)"]) auto
qed

lemma length_prune_loop: "length (prune_loop ys now xs) \<le> length xs"
  by (simp add: prune_loop_filter)

lemma length_pruneExpired: "length (items (pruneExpired now c)) \<le> length (items c)"
  by (simp add: pruneExpired_def length_prune_loop)

lemma length_evict_loop:
  "length (evict_loop n (map fst xs) xs) \<le> length xs - nat n"
proof -
  let ?P = "\<lambda>p. fst p \<notin> set (take (nat n) (map fst xs))"
  have "filter ?P (take (nat n) xs) = []"
    by (auto simp: filter_empty_conv take_map)
  then have "filter ?P xs = filter ?P (drop (nat n) xs)"
    by (metis append_Nil append_take_drop_id filter_append)
  then have "length (filter ?P xs) \<le> length (drop (nat n) xs)"
    by (metis length_filter_le)
  then show ?thesis by (simp add: evict_loop_filter)
qed

lemma size_evictOverflow:
  assumes "0 \<le> max_cfg (options c)"
  shows "int (length (items (evictOverflow now c))) \<le> max_cfg (options c)"
proof (cases "max_cfg (options c) \<le> 0")
  case True
  with assms show ?thesis by (simp add: evictOverflow_def)
next
  case False
  define c1 where "c1 = (if hasTtl c then pruneExpired now c else c)"
  have o: "options c1 = options c" by (simp add: c1_def)
  show ?thesis
  proof (cases "int (length (items c1)) - max_cfg (options c) > 0")
    case True
    have "length (evict_loop (int (length (items c1)) - max_cfg (options c)) (map fst (items c1)) (items c1))
            \<le> length (items c1) - nat (int (length (items c1)) - max_cfg (options c))"
      by (rule length_evict_loop)
    with True False show ?thesis
      by (simp add: evictOverflow_def Let_def c1_def[symmetric] o)
  next
    case F2: False
    with False show ?thesis
      by (simp add: evictOverflow_def Let_def c1_def[symmetric] o)
  qed
qed

lemma size_set:
  "0 \<le> max_cfg (options c) \<Longrightarrow> int (length (items (LruCache_set key v now c))) \<le> max_cfg (options c)"
  unfolding LruCache_set_def Let_def
  using size_evictOverflow[of "c\<lparr>items := AList.update key _ (AList.delete key (items c))\<rparr>" now]
  by simp

lemma length_get: "length (items (snd (LruCache_get key now c))) \<le> length (items c)"
proof (cases "map_of (items c) key")
  case None
  then show ?thesis by (simp add: LruCache_get_def)
next
  case (Some e)
  from length_delete_less[OF Some] have "length (AList.delete key (items c)) < length (items c)" .
  with Some show ?thesis
    by (simp add: LruCache_get_def update_delete_append)
qed

lemma length_has: "length (items (snd (LruCache_has key now c))) \<le> length (items c)"
  by (auto simp: LruCache_has_def AList.length_delete_le split: option.splits)

lemma length_entries_loop: "length (items (snd (entries_loop ys now c))) \<le> length (items c)"
proof (induction ys now c rule: entries_loop.induct)
  case (1 now c)
  then show ?case by simp
next
  case (2 key entry rest now c)
  show ?case
  proof (cases "hasTtl c \<and> isExpired entry now")
    case True
    have "length (AList.delete key (items c)) \<le> length (items c)"
      by (rule AList.length_delete_le)
    with 2(1)[OF True] True show ?thesis by simp
  next
    case False
    from False have "entries_loop ((key, entry) # rest) now c =
        (let (ys, c') = entries_loop rest now c in ((key, wrapped_value entry) # ys, c'))"
      by auto
    with 2(2)[OF False] show ?thesis by (simp add: split_beta)
  qed
qed

lemma length_apply_op:
  "0 \<le> max_cfg (options c) \<Longrightarrow> int (length (items c)) \<le> max_cfg (options c) \<Longrightarrow>
     int (length (items (apply_op op c))) \<le> max_cfg (options c)"
proof (cases op)
  case (OpSet k v now)
  assume "0 \<le> max_cfg (options c)"
  then show ?thesis using OpSet by (simp add: size_set)
next
  case (OpGet k now)
  assume "int (length (items c)) \<le> max_cfg (options c)"
  then show ?thesis using OpGet length_get[of k now c] by simp
next
  case (OpHas k now)
  assume "int (length (items c)) \<le> max_cfg (options c)"
  then show ?thesis using OpHas length_has[of k now c] by simp
next
  case (OpDelete k)
  assume "int (length (items c)) \<le> max_cfg (options c)"
  then show ?thesis using OpDelete AList.length_delete_le[of k "items c"]
    by (simp add: LruCache_delete_def)
next
  case OpClear
  assume "0 \<le> max_cfg (options c)"
  then show ?thesis using OpClear by (simp add: LruCache_clear_def)
next
  case (OpSize now)
  assume "int (length (items c)) \<le> max_cfg (options c)"
  then show ?thesis using OpSize length_pruneExpired[of now c]
    by (simp add: LruCache_size_def Let_def)
next
  case (OpEntries now)
  assume "int (length (items c)) \<le> max_cfg (options c)"
  then show ?thesis using OpEntries length_entries_loop[of "items c" now c]
    by (simp add: LruCache_entries_def)
qed

lemma size_run_ops:
  assumes "0 \<le> max_cfg (options c)" "int (length (items c)) \<le> max_cfg (options c)"
  shows "int (length (items (run_ops ops c))) \<le> max_cfg (options c)"
proof (induction ops rule: rev_induct)
  case Nil
  show ?case using assms by simp
next
  case (snoc op ops)
  show ?case
    using length_apply_op[of "run_ops ops c" op] snoc assms by simp
qed

subsection \<open>Inserting distinct keys\<close>

lemma fst_record_of [simp]: "fst (record_of c kvt) = fst kvt"
  by (simp add: record_of_def split_beta)

lemma fst_comp_record_of [simp]: "fst \<circ> record_of c = fst"
  by (simp add: fun_eq_iff)

lemma map_fst_record_of [simp]: "map fst (map (record_of c) ys) = map fst ys"
  by (induction ys) simp_all

lemma insert_all_snoc:
  "insert_all (kvts @ [(key, v, now)]) c = LruCache_set key v now (insert_all kvts c)"
  by (simp add: insert_all_def)

lemma insert_all_fields [simp]:
  "options (insert_all kvts c) = options c" "hasTtl (insert_all kvts c) = hasTtl c"
  by (simp_all add: insert_all_def)

lemma record_of_cong:
  "options c' = options c \<Longrightarrow> hasTtl c' = hasTtl c \<Longrightarrow> record_of c' = record_of c"
  by (simp only: record_of_def)

text \<open>What one \<open>set\<close> of a new key does to a store of distinct keys.\<close>

lemma evictOverflow_distinct:
  assumes "distinct (map fst (items c))" "0 < max_cfg (options c)"
  shows "\<exists>n. items (evictOverflow now c) =
           drop n (if hasTtl c then filter (\<lambda>p. \<not> isExpired (snd p) now) (items c) else items c)"
proof -
  define c1 where "c1 = (if hasTtl c then pruneExpired now c else c)"
  have i1: "items c1 = (if hasTtl c then filter (\<lambda>p. \<not> isExpired (snd p) now) (items c) else items c)"
    using assms(1) by (auto simp: c1_def pruneExpired_def prune_loop_distinct)
  have d1: "distinct (map fst (items c1))"
    using assms(1) by (simp add: i1 distinct_map_filter)
  show ?thesis
  proof (cases "int (length (items c1)) - max_cfg (options c1) > 0")
    case True
    then have "items (evictOverflow now c) =
                 drop (nat (int (length (items c1)) - max_cfg (options c1))) (items c1)"
      using assms(2) d1 by (simp add: evictOverflow_def Let_def c1_def[symmetric] evict_loop_drop)
    then show ?thesis unfolding i1 by blast
  next
    case False
    then have "items (evictOverflow now c) = drop 0 (items c1)"
      using assms(2) by (simp add: evictOverflow_def Let_def c1_def[symmetric])
    then show ?thesis unfolding i1 by blast
  qed
qed

lemma evictOverflow_exact:
  assumes "distinct (map fst (items c))" "0 < max_cfg (options c)"
    and "hasTtl c \<Longrightarrow> \<forall>p \<in> set (items c). \<not> isExpired (snd p) now"
  shows "items (evictOverflow now c) =
           drop (length (items c) - nat (max_cfg (options c))) (items c)"
proof -
  define c1 where "c1 = (if hasTtl c then pruneExpired now c else c)"
  have "hasTtl c \<Longrightarrow> filter (\<lambda>p. \<not> isExpired (snd p) now) (items c) = items c"
    using assms(3) by (simp add: filter_id_conv)
  then have i1: "items c1 = items c"
    using assms(1) by (auto simp: c1_def pruneExpired_def prune_loop_distinct)
  have o1: "options c1 = options c" by (simp add: c1_def)
  show ?thesis
  proof (cases "int (length (items c1)) - max_cfg (options c1) > 0")
    case True
    then have "items (evictOverflow now c) =
                 drop (nat (int (length (items c1)) - max_cfg (options c1))) (items c1)"
      using assms(1,2) i1 by (simp add: evictOverflow_def Let_def c1_def[symmetric] evict_loop_drop)
    moreover have "nat (int (length (items c)) - max_cfg (options c)) =
                   length (items c) - nat (max_cfg (options c))"
      using assms(2) by simp
    ultimately show ?thesis by (simp add: i1 o1)
  next
    case False
    then have "items (evictOverflow now c) = items c1"
      using assms(2) by (simp add: evictOverflow_def Let_def c1_def[symmetric])
    moreover from False have "length (items c) - nat (max_cfg (options c)) = 0"
      using assms(2) by (simp add: i1 o1)
    ultimately show ?thesis by (simp add: i1)
  qed
qed

lemma set_fresh_items:
  assumes "key \<notin> fst ` set (items c)"
  shows "LruCache_set key v now c =
           evictOverflow now (c\<lparr>items := items c @ [record_of c (key, v, now)]\<rparr>)"
  using assms by (simp add: LruCache_set_def Let_def update_fresh record_of_def)

lemma sorted_filter_drop:
  "sorted (map f ys) \<Longrightarrow> \<exists>m. filter (\<lambda>y. \<not> f y \<le> (b::int)) ys = drop m ys"
proof (induction ys)
  case Nil
  then show ?case by simp
next
  case (Cons y ys)
  show ?case
  proof (cases "f y \<le> b")
    case True
    from Cons obtain m where "filter (\<lambda>y. \<not> f y \<le> b) ys = drop m ys" by auto
    with True have "filter (\<lambda>y. \<not> f y \<le> b) (y # ys) = drop (Suc m) (y # ys)" by simp
    then show ?thesis by blast
  next
    case False
    with Cons.prems have "\<forall>z \<in> set ys. \<not> f z \<le> b" by auto
    then have "filter (\<lambda>y. \<not> f y \<le> b) ys = ys" by (simp add: filter_id_conv)
    with False have "filter (\<lambda>y. \<not> f y \<le> b) (y # ys) = drop 0 (y # ys)" by simp
    then show ?thesis by blast
  qed
qed

lemma drop_snoc_suffix: "\<exists>i. drop j (drop n ys @ [x]) = drop i (ys @ [x])"
proof (cases "n \<le> length ys")
  case True
  then have "drop j (drop n ys @ [x]) = drop (j + n) (ys @ [x])" by simp
  then show ?thesis by blast
next
  case False
  then have "drop j (drop n ys @ [x]) = drop (j + length ys) (ys @ [x])" by simp
  then show ?thesis by blast
qed

lemma insert_all_suffix:
  assumes "items c = []" "distinct (map fst kvts)" "sorted (map (\<lambda>x. snd (snd x)) kvts)"
  shows "\<exists>n. items (insert_all kvts c) = map (record_of c) (drop n kvts)"
  using assms(2,3)
proof (induction kvts rule: rev_induct)
  case Nil
  then show ?case using assms(1) by (simp add: insert_all_def)
next
  case (snoc x kvts)
  obtain key v now where x: "x = (key, v, now)" by (cases x) auto
  let ?c = "insert_all kvts c"
  from snoc.prems have d: "distinct (map fst kvts)" and fresh: "key \<notin> fst ` set kvts"
    and s: "sorted (map (\<lambda>x. snd (snd x)) kvts)" and le: "\<forall>y \<in> set kvts. snd (snd y) \<le> now"
    by (auto simp: x sorted_append)
  from snoc.IH[OF d s] obtain n where n: "items ?c = map (record_of c) (drop n kvts)" by blast
  have rc: "record_of ?c = record_of c" by (rule record_of_cong) simp_all
  have fresh': "key \<notin> fst ` set (items ?c)"
  proof
    assume "key \<in> fst ` set (items ?c)"
    then obtain y where "y \<in> set (drop n kvts)" "fst (record_of c y) = key"
      unfolding n by auto
    then have "y \<in> set kvts" "fst y = key" by (auto dest: in_set_dropD)
    with fresh show False by auto
  qed
  let ?ys = "drop n kvts @ [x]"
  let ?c' = "?c\<lparr>items := items ?c @ [record_of ?c (key, v, now)]\<rparr>"
  have items': "items ?c' = map (record_of c) ?ys" by (simp add: n rc x)
  have dys: "distinct (map fst ?ys)"
  proof -
    have "distinct (drop n (map fst kvts))" using d by (rule distinct_drop)
    moreover have "key \<notin> fst ` set (drop n kvts)"
      using fresh by (auto dest: in_set_dropD)
    ultimately show ?thesis by (simp add: x drop_map)
  qed
  have sys: "sorted (map (\<lambda>x. snd (snd x)) ?ys)"
    using s le by (auto simp: sorted_append x sorted_wrt_drop drop_map[symmetric] dest!: in_set_dropD)
  have step: "insert_all (kvts @ [x]) c = evictOverflow now ?c'"
    unfolding x insert_all_snoc by (rule set_fresh_items[OF fresh'])
  show ?case
  proof (cases "max_cfg (options c) \<le> 0")
    case True
    then have "items (insert_all (kvts @ [x]) c) = map (record_of c) (drop (length (kvts @ [x])) (kvts @ [x]))"
      by (simp add: step evictOverflow_def)
    then show ?thesis by blast
  next
    case False
    have "distinct (map fst (items ?c'))" unfolding items' using dys by simp
    moreover have "0 < max_cfg (options ?c')" using False by simp
    ultimately obtain m where m: "items (evictOverflow now ?c') =
        drop m (if hasTtl ?c' then filter (\<lambda>p. \<not> isExpired (snd p) now) (items ?c') else items ?c')"
      using evictOverflow_distinct by blast
    have "\<exists>j. (if hasTtl ?c' then filter (\<lambda>p. \<not> isExpired (snd p) now) (items ?c') else items ?c')
           = map (record_of c) (drop j ?ys)"
    proof (cases "hasTtl c")
      case True
      from sorted_filter_drop[OF sys, of "now - ttl_cfg (options c)"]
      obtain j where j: "filter (\<lambda>y. \<not> snd (snd y) \<le> now - ttl_cfg (options c)) ?ys = drop j ?ys"
        by blast
      have "filter (\<lambda>p. \<not> isExpired (snd p) now) (map (record_of c) ?ys)
            = map (record_of c) (filter (\<lambda>y. \<not> snd (snd y) \<le> now - ttl_cfg (options c)) ?ys)"
        using True unfolding filter_map
        by (intro arg_cong[where f="map (record_of c)"] filter_cong)
           (auto simp: record_of_def isExpired_def split_beta)
      with j True show ?thesis by (auto simp: items' simp del: map_append)
    next
      case False
      then have "(if hasTtl ?c' then filter (\<lambda>p. \<not> isExpired (snd p) now) (items ?c') else items ?c')
           = map (record_of c) (drop 0 ?ys)"
        by (simp add: items')
      then show ?thesis by blast
    qed
    then obtain j where e1: "items (evictOverflow now ?c') = drop m (map (record_of c) (drop j ?ys))"
      using m by auto
    obtain i where e2: "drop j ?ys = drop i (kvts @ [x])"
      using drop_snoc_suffix[of j n kvts x] by blast
    have "items (insert_all (kvts @ [x]) c) = map (record_of c) (drop (m + i) (kvts @ [x]))"
      unfolding step e1 e2 by (simp only: drop_map drop_drop)
    then show ?thesis by blast
  qed
qed

lemma insert_all_exact:
  assumes "items c = []" "0 \<le> max_cfg (options c)" "distinct (map fst kvts)"
    and "no_expiry c (map (\<lambda>x. snd (snd x)) kvts)"
  shows "items (insert_all kvts c) =
           map (record_of c) (drop (length kvts - nat (max_cfg (options c))) kvts)"
  using assms(3,4)
proof (induction kvts rule: rev_induct)
  case Nil
  then show ?case using assms(1) by (simp add: insert_all_def)
next
  case (snoc x kvts)
  obtain key v now where x: "x = (key, v, now)" by (cases x) auto
  let ?c = "insert_all kvts c"
  let ?m = "nat (max_cfg (options c))"
  from snoc.prems have d: "distinct (map fst kvts)" and fresh: "key \<notin> fst ` set kvts"
    by (auto simp: x)
  from snoc.prems(2) have ne: "no_expiry c (map (\<lambda>x. snd (snd x)) kvts)"
    by (auto simp: no_expiry_def)
  from snoc.IH[OF d ne] have n: "items ?c = map (record_of c) (drop (length kvts - ?m) kvts)" .
  have rc: "record_of ?c = record_of c" by (rule record_of_cong) simp_all
  have fresh': "key \<notin> fst ` set (items ?c)"
  proof
    assume "key \<in> fst ` set (items ?c)"
    then obtain y where "y \<in> set (drop (length kvts - ?m) kvts)" "fst (record_of c y) = key"
      unfolding n by auto
    then have "y \<in> set kvts" "fst y = key" by (auto dest: in_set_dropD)
    with fresh show False by auto
  qed
  let ?ys = "drop (length kvts - ?m) kvts @ [x]"
  let ?c' = "?c\<lparr>items := items ?c @ [record_of ?c (key, v, now)]\<rparr>"
  have items': "items ?c' = map (record_of c) ?ys" by (simp add: n rc x)
  have dys: "distinct (map fst ?ys)"
  proof -
    have "distinct (drop (length kvts - ?m) (map fst kvts))" using d by (rule distinct_drop)
    moreover have "key \<notin> fst ` set (drop (length kvts - ?m) kvts)"
      using fresh by (auto dest: in_set_dropD)
    ultimately show ?thesis by (simp add: x drop_map)
  qed
  have step: "insert_all (kvts @ [x]) c = evictOverflow now ?c'"
    unfolding x insert_all_snoc by (rule set_fresh_items[OF fresh'])
  show ?case
  proof (cases "max_cfg (options c) \<le> 0")
    case True
    then show ?thesis by (simp add: step evictOverflow_def)
  next
    case False
    have d': "distinct (map fst (items ?c'))" unfolding items' using dys by simp
    have pos: "0 < max_cfg (options ?c')" using False by simp
    have live: "\<forall>p \<in> set (items ?c'). \<not> isExpired (snd p) now" if "hasTtl ?c'"
    proof
      fix p assume "p \<in> set (items ?c')"
      then have "p \<in> record_of c ` set ?ys" unfolding items' by (simp only: set_map)
      then obtain y where y: "y \<in> set ?ys" "p = record_of c y" by blast
      then have "y \<in> set (kvts @ [x])" by (auto dest: in_set_dropD)
      then have "snd (snd y) \<in> set (map (\<lambda>x. snd (snd x)) (kvts @ [x]))" by force
      moreover have "now \<in> set (map (\<lambda>x. snd (snd x)) (kvts @ [x]))" by (simp add: x)
      moreover have "hasTtl c" using that by simp
      ultimately have "now < snd (snd y) + ttl_cfg (options c)"
        using snoc.prems(2) unfolding no_expiry_def by blast
      with that show "\<not> isExpired (snd p) now"
        by (simp add: y record_of_def isExpired_def split_beta)
    qed
    have "items (evictOverflow now ?c') =
            drop (length (items ?c') - nat (max_cfg (options ?c'))) (items ?c')"
      using evictOverflow_exact[OF d' pos live] by simp
    also have "\<dots> = map (record_of c) (drop (length ?ys - ?m) ?ys)"
      by (simp only: items' drop_map length_map) simp
    also have "drop (length ?ys - ?m) ?ys = drop (length (kvts @ [x]) - ?m) (kvts @ [x])"
    proof (cases "length kvts < ?m")
      case True
      then show ?thesis by simp
    next
      case F: False
      with False have "length (drop (length kvts - ?m) kvts) = ?m" "0 < ?m" by auto
      moreover have "length (kvts @ [x]) - ?m = Suc (length kvts - ?m)"
        using F by auto
      ultimately show ?thesis by (simp add: Suc_diff_le)
    qed
    finally show ?thesis unfolding step .
  qed
qed

subsection \<open>No operation but \<open>set\<close> creates a record\<close>

lemma set_delete_subset: "set (AList.delete k xs) \<subseteq> set xs"
  by (auto simp: AList.delete_eq)

lemma set_prune_loop: "set (prune_loop ys now xs) \<subseteq> set xs"
  by (auto simp: prune_loop_filter)

lemma set_pruneExpired: "set (items (pruneExpired now c)) \<subseteq> set (items c)"
  using set_prune_loop[of "items c" now "items c"] by (simp add: pruneExpired_def)

lemma set_evict_loop: "set (evict_loop n ks xs) \<subseteq> set xs"
  by (auto simp: evict_loop_filter)

lemma set_evictOverflow: "set (items (evictOverflow now c)) \<subseteq> set (items c)"
proof -
  define c1 where "c1 = (if hasTtl c then pruneExpired now c else c)"
  have s1: "set (items c1) \<subseteq> set (items c)"
    using set_pruneExpired[of now c] by (simp add: c1_def)
  have "set (items (evictOverflow now c)) \<subseteq> set (items c1)"
    using set_evict_loop[of _ "map fst (items c1)" "items c1"]
    by (auto simp: evictOverflow_def Let_def c1_def[symmetric])
  with s1 show ?thesis by blast
qed

lemma set_LruCache_set:
  "set (items (LruCache_set key v now c))
     \<subseteq> insert (record_of c (key, v, now)) (set (AList.delete key (items c)))"
proof -
  let ?c' = "c\<lparr>items := AList.delete key (items c) @ [record_of c (key, v, now)]\<rparr>"
  have "LruCache_set key v now c = evictOverflow now ?c'"
    by (simp add: LruCache_set_def Let_def update_delete_append record_of_def)
  then show ?thesis using set_evictOverflow[of now ?c'] by auto
qed

lemma set_LruCache_get: "set (items (snd (LruCache_get key now c))) \<subseteq> set (items c)"
proof (cases "map_of (items c) key")
  case None
  then show ?thesis by (simp add: LruCache_get_def)
next
  case (Some e)
  then have "(key, e) \<in> set (items c)" by (rule map_of_SomeD)
  with Some show ?thesis
    using set_delete_subset[of key "items c"]
    by (auto simp: LruCache_get_def update_delete_append)
qed

lemma set_LruCache_has: "set (items (snd (LruCache_has key now c))) \<subseteq> set (items c)"
  using set_delete_subset[of key "items c"]
  by (auto simp: LruCache_has_def split: option.splits)

lemma set_entries_loop: "set (items (snd (entries_loop ys now c))) \<subseteq> set (items c)"
proof (induction ys now c rule: entries_loop.induct)
  case (1 now c)
  then show ?case by simp
next
  case (2 key entry rest now c)
  show ?case
  proof (cases "hasTtl c \<and> isExpired entry now")
    case True
    with 2(1)[OF True] set_delete_subset[of key "items c"] show ?thesis by auto
  next
    case False
    from False have "entries_loop ((key, entry) # rest) now c =
        (let (ys, c') = entries_loop rest now c in ((key, wrapped_value entry) # ys, c'))"
      by auto
    with 2(2)[OF False] show ?thesis by (simp add: split_beta)
  qed
qed

lemma set_apply_op_other:
  assumes "\<not> sets_key key op" "(key, e) \<in> set (items (apply_op op c))"
  shows "(key, e) \<in> set (items c)"
proof (cases op)
  case (OpSet k v now)
  with assms(1) have ne: "key \<noteq> k" by simp
  from assms(2) OpSet set_LruCache_set[of k v now c]
  have "(key, e) = record_of c (k, v, now) \<or> (key, e) \<in> set (AList.delete k (items c))"
    by auto
  with ne show ?thesis
    using set_delete_subset[of k "items c"] by (auto simp: record_of_def)
next
  case (OpGet k now)
  with assms(2) set_LruCache_get[of k now c] show ?thesis by auto
next
  case (OpHas k now)
  with assms(2) set_LruCache_has[of k now c] show ?thesis by auto
next
  case (OpDelete k)
  with assms(2) set_delete_subset[of k "items c"] show ?thesis
    by (auto simp: LruCache_delete_def)
next
  case OpClear
  with assms(2) show ?thesis by (simp add: LruCache_clear_def)
next
  case (OpSize now)
  with assms(2) set_pruneExpired[of now c] show ?thesis
    by (auto simp: LruCache_size_def Let_def split: if_splits)
next
  case (OpEntries now)
  with assms(2) set_entries_loop[of "items c" now c] show ?thesis
    by (auto simp: LruCache_entries_def)
qed

lemma set_run_ops_other:
  assumes "\<forall>op \<in> set ops. \<not> sets_key key op" "(key, e) \<in> set (items (run_ops ops c))"
  shows "(key, e) \<in> set (items c)"
  using assms
proof (induction ops arbitrary: e rule: rev_induct)
  case Nil
  then show ?case by simp
next
  case (snoc op ops)
  from snoc.prems have "\<not> sets_key key op" "(key, e) \<in> set (items (apply_op op (run_ops ops c)))"
    by simp_all
  then have "(key, e) \<in> set (items (run_ops ops c))" by (rule set_apply_op_other)
  with snoc show ?case by simp
qed

subsection \<open>Lookups of an expired record\<close>

lemma has_expired:
  assumes "hasTtl c" "\<forall>e. (key, e) \<in> set (items c) \<longrightarrow> isExpired e now"
  shows "fst (LruCache_has key now c) = False"
    and "key \<notin> fst ` set (items (snd (LruCache_has key now c)))"
proof -
  show "fst (LruCache_has key now c) = False"
    using assms by (auto simp: LruCache_has_def split: option.splits dest: map_of_SomeD)
  show "key \<notin> fst ` set (items (snd (LruCache_has key now c)))"
  proof (cases "map_of (items c) key")
    case None
    then have "snd (LruCache_has key now c) = c" by (simp add: LruCache_has_def)
    moreover from None have "key \<notin> fst ` set (items c)" by (simp add: map_of_eq_None_iff)
    ultimately show ?thesis by simp
  next
    case (Some e)
    then have "(key, e) \<in> set (items c)" by (rule map_of_SomeD)
    with assms Some show ?thesis
      by (simp add: LruCache_has_def AList.delete_notin_dom)
  qed
qed

lemma get_expired:
  assumes "hasTtl c" "\<forall>e. (key, e) \<in> set (items c) \<longrightarrow> isExpired e now"
  shows "fst (LruCache_get key now c) = None"
    and "key \<notin> fst ` set (items (snd (LruCache_get key now c)))"
proof -
  show "fst (LruCache_get key now c) = None"
    using assms by (auto simp: LruCache_get_def split: option.splits dest: map_of_SomeD)
  show "key \<notin> fst ` set (items (snd (LruCache_get key now c)))"
  proof (cases "map_of (items c) key")
    case None
    then have "snd (LruCache_get key now c) = c" by (simp add: LruCache_get_def)
    moreover from None have "key \<notin> fst ` set (items c)" by (simp add: map_of_eq_None_iff)
    ultimately show ?thesis by simp
  next
    case (Some e)
    then have "(key, e) \<in> set (items c)" by (rule map_of_SomeD)
    with assms Some show ?thesis
      by (simp add: LruCache_get_def AList.delete_notin_dom)
  qed
qed

lemma get_Some_live:
  assumes "fst (LruCache_get key now c) = Some x"
  shows "\<exists>entry. map_of (items c) key = Some entry \<and> wrapped_value entry = x
           \<and> \<not> (hasTtl c \<and> isExpired entry now)"
  using assms by (auto simp: LruCache_get_def split: option.splits if_splits)

lemma set_record_only:
  assumes "(key, e) \<in> set (items (LruCache_set key v now c))"
  shows "e = snd (record_of c (key, v, now))"
proof -
  from assms set_LruCache_set[of key v now c]
  have "(key, e) = record_of c (key, v, now) \<or> (key, e) \<in> set (AList.delete key (items c))"
    by auto
  moreover have "(key, e) \<notin> set (AList.delete key (items c))"
    by (auto simp: AList.delete_eq)
  ultimately show ?thesis by (metis snd_conv)
qed

subsection \<open>Migration\<close>

lemma foldl_set_expiry:
  assumes "hasTtl c" "\<forall>p \<in> set (items c). expiresAt (snd p) = Some (now + ttl_cfg (options c))"
  shows "\<forall>p \<in> set (items (foldl (\<lambda>newCache (key, v). LruCache_set key v now newCache) c es)).
           expiresAt (snd p) = Some (now + ttl_cfg (options c))"
  using assms
proof (induction es arbitrary: c)
  case Nil
  then show ?case by simp
next
  case (Cons x es)
  obtain key v where x: "x = (key, v)" by (cases x)
  let ?c' = "LruCache_set key v now c"
  have f: "hasTtl ?c'" "options ?c' = options c"
    using Cons.prems(1) by (simp_all add: LruCache_set_def Let_def)
  have "\<forall>p \<in> set (items ?c'). expiresAt (snd p) = Some (now + ttl_cfg (options ?c'))"
  proof
    fix p assume "p \<in> set (items ?c')"
    with set_LruCache_set[of key v now c]
    have "p = record_of c (key, v, now) \<or> p \<in> set (AList.delete key (items c))" by auto
    then show "expiresAt (snd p) = Some (now + ttl_cfg (options ?c'))"
      using Cons.prems set_delete_subset[of key "items c"] f
      by (auto simp: record_of_def)
  qed
  from Cons.IH[OF f(1) this] show ?case by (simp add: x f)
qed

section \<open>Lemmas about keys\<close>

lemmas idFor_defs = idForObject_def idForFunction_def idForSymbol_def symbolByKey_def
  freshSymbolId_def Let_def

lemma known_id_serialize:
  "known_id a w = Some x \<Longrightarrow> serializeArgument a w = (x, w)"
  by (cases a) (auto simp: idFor_defs split: option.splits if_splits)

lemma serialize_known_id:
  "known_id a (snd (serializeArgument a w)) = Some (fst (serializeArgument a w))"
  by (cases a) (auto simp: idFor_defs split: option.splits)

lemma known_id_mono:
  "known_id a w = Some x \<Longrightarrow> known_id a (snd (serializeArgument b w)) = Some x"
proof (cases b)
  case (JSymbol r gk d)
  assume "known_id a w = Some x"
  with JSymbol show ?thesis
    by (cases a) (auto simp: idFor_defs split: option.splits if_splits)
next
  case (JFunction r)
  assume "known_id a w = Some x"
  with JFunction show ?thesis
    by (cases a) (auto simp: idFor_defs split: option.splits if_splits)
next
  case (JObject r sh)
  assume "known_id a w = Some x"
  with JObject show ?thesis
    by (cases a) (auto simp: idFor_defs split: option.splits if_splits)
next
  case (JLibraryPromise n)
  assume "known_id a w = Some x"
  with JLibraryPromise show ?thesis
    by (cases a) (auto simp: idFor_defs split: option.splits if_splits)
qed simp_all

lemma known_id_cong: "same_registry w w' \<Longrightarrow> known_id a w' = known_id a w"
  by (cases a) (auto simp: same_registry_def)


lemma serializeArgument_frame:
  "cache (snd (serializeArgument a w)) = cache w"
  "promises (snd (serializeArgument a w)) = promises w"
  "nextPromise (snd (serializeArgument a w)) = nextPromise w"
  "user (snd (serializeArgument a w)) = user w"
  "calls (snd (serializeArgument a w)) = calls w"
  by (cases a; simp add: idFor_defs split: option.splits)+

lemma serializeArguments_frame:
  "cache (snd (serializeArguments as w)) = cache w
   \<and> promises (snd (serializeArguments as w)) = promises w
   \<and> nextPromise (snd (serializeArguments as w)) = nextPromise w
   \<and> user (snd (serializeArguments as w)) = user w
   \<and> calls (snd (serializeArguments as w)) = calls w"
proof (induction as arbitrary: w)
  case Nil
  then show ?case by simp
next
  case (Cons a as)
  show ?case
    using Cons[of "snd (serializeArgument a w)"]
    by (simp add: split_beta serializeArgument_frame)
qed

lemma callKey_frame:
  "cache (snd (callKey fk args w)) = cache w"
  "promises (snd (callKey fk args w)) = promises w"
  "nextPromise (snd (callKey fk args w)) = nextPromise w"
  "user (snd (callKey fk args w)) = user w"
  "calls (snd (callKey fk args w)) = calls w"
  using serializeArguments_frame[of args w]
  by (simp_all add: callKey_def split_beta)

lemma known_ids_serialize:
  "list_all2 (\<lambda>a x. known_id a w = Some x) as xs \<Longrightarrow> serializeArguments as w = (xs, w)"
  by (induction as xs rule: list_all2_induct) (simp_all add: known_id_serialize)

lemma known_id_mono_list:
  "known_id a w = Some x \<Longrightarrow> known_id a (snd (serializeArguments bs w)) = Some x"
proof (induction bs arbitrary: w)
  case Nil
  then show ?case by simp
next
  case (Cons b bs)
  from Cons.prems have "known_id a (snd (serializeArgument b w)) = Some x"
    by (rule known_id_mono)
  from Cons.IH[OF this] show ?case by (simp add: split_beta)
qed

lemma serializeArguments_known:
  "list_all2 (\<lambda>a x. known_id a (snd (serializeArguments as w)) = Some x)
     as (fst (serializeArguments as w))"
proof (induction as arbitrary: w)
  case Nil
  then show ?case by simp
next
  case (Cons a as)
  let ?w1 = "snd (serializeArgument a w)"
  have "known_id a ?w1 = Some (fst (serializeArgument a w))"
    by (rule serialize_known_id)
  then have "known_id a (snd (serializeArguments as ?w1)) = Some (fst (serializeArgument a w))"
    by (rule known_id_mono_list)
  with Cons[of ?w1] show ?case by (simp add: split_beta)
qed

text \<open>A key computed once is computed again the same, in any state with the same tables.\<close>

lemma callKey_stable:
  assumes "same_registry (snd (callKey fk args w)) w'"
  shows "callKey fk args w' = (fst (callKey fk args w), w')"
proof (cases "length args = 0")
  case True
  then show ?thesis by (simp add: callKey_def)
next
  case False
  let ?w1 = "snd (serializeArguments args w)"
  from assms False have sr: "same_registry ?w1 w'" by (simp add: callKey_def split_beta)
  have "list_all2 (\<lambda>a x. known_id a ?w1 = Some x) args (fst (serializeArguments args w))"
    by (rule serializeArguments_known)
  then have "list_all2 (\<lambda>a x. known_id a w' = Some x) args (fst (serializeArguments args w))"
    using known_id_cong[OF sr] by simp
  then have "serializeArguments args w' = (fst (serializeArguments args w), w')"
    by (rule known_ids_serialize)
  with False show ?thesis by (simp add: callKey_def split_beta)
qed

subsection \<open>A record just written is found\<close>

lemma map_of_unique:
  assumes "(k, e) \<in> set xs" "\<And>e'. (k, e') \<in> set xs \<Longrightarrow> e' = e"
  shows "map_of xs k = Some e"
proof -
  from assms(1) have "k \<in> fst ` set xs" by force
  then obtain e' where e': "map_of xs k = Some e'"
    by (metis map_of_eq_None_iff not_Some_eq)
  then have "(k, e') \<in> set xs" by (rule map_of_SomeD)
  with assms(2) e' show ?thesis by simp
qed

lemma set_keeps_new_record:
  assumes "0 < max_cfg (options c)" "hasTtl c \<Longrightarrow> 0 < ttl_cfg (options c)"
  shows "map_of (items (LruCache_set key v now c)) key = Some (snd (record_of c (key, v, now)))"
proof -
  let ?e = "snd (record_of c (key, v, now))"
  let ?zs = "AList.delete key (items c)"
  let ?c' = "c\<lparr>items := ?zs @ [(key, ?e)]\<rparr>"
  have step: "LruCache_set key v now c = evictOverflow now ?c'"
    by (simp add: LruCache_set_def Let_def update_delete_append record_of_def)
  have fresh: "key \<notin> fst ` set ?zs" by (rule AList.delete_notin_dom)
  have live: "\<not> isExpired ?e now"
    using assms(2) by (auto simp: record_of_def isExpired_def)
  define c1 where "c1 = (if hasTtl c then pruneExpired now ?c' else ?c')"
  have "\<exists>zs'. items c1 = zs' @ [(key, ?e)] \<and> set zs' \<subseteq> set ?zs"
  proof (cases "hasTtl c")
    case True
    let ?P = "\<lambda>p. \<not> (\<exists>e. (fst p, e) \<in> set (?zs @ [(key, ?e)]) \<and> isExpired e now)"
    have "?P (key, ?e)" using fresh live by force
    then have "items c1 = filter ?P ?zs @ [(key, ?e)]"
      using True by (simp add: c1_def pruneExpired_def prune_loop_filter)
    then show ?thesis by auto
  next
    case False
    then show ?thesis by (auto simp: c1_def)
  qed
  then obtain zs' where zs': "items c1 = zs' @ [(key, ?e)]" "set zs' \<subseteq> set ?zs" by blast
  have o1: "options c1 = options c" by (simp add: c1_def)
  have ev: "items (evictOverflow now ?c') =
              (if int (length (items c1)) - max_cfg (options c) > 0
               then evict_loop (int (length (items c1)) - max_cfg (options c)) (map fst (items c1)) (items c1)
               else items c1)"
    using assms(1) by (simp add: evictOverflow_def Let_def c1_def[symmetric] o1)
  have fresh': "key \<notin> fst ` set zs'" using fresh zs'(2) by auto
  have mem: "(key, ?e) \<in> set (items (evictOverflow now ?c'))"
  proof (cases "int (length (items c1)) - max_cfg (options c) > 0")
    case True
    let ?n = "nat (int (length (items c1)) - max_cfg (options c))"
    have "?n \<le> length zs'" using assms(1) by (simp add: zs')
    then have "take ?n (map fst (items c1)) = take ?n (map fst zs')" by (simp add: zs')
    then have "key \<notin> set (take ?n (map fst (items c1)))"
      using fresh' by (auto dest: in_set_takeD)
    with True show ?thesis by (simp add: ev evict_loop_filter zs')
  next
    case False
    then show ?thesis by (simp add: ev zs')
  qed
  have only: "e' = ?e" if "(key, e') \<in> set (items (evictOverflow now ?c'))" for e'
  proof -
    from that set_evictOverflow[of now ?c'] have "(key, e') \<in> set (?zs @ [(key, ?e)])" by auto
    with fresh show ?thesis by force
  qed
  show ?thesis unfolding step using mem only by (rule map_of_unique)
qed

lemma LruCache_set_fields [simp]:
  "options (LruCache_set key v now c) = options c" "hasTtl (LruCache_set key v now c) = hasTtl c"
  by (simp_all add: LruCache_set_def Let_def)

lemma get_after_set:
  assumes "0 < max_cfg (options c)"
    and "hasTtl c \<Longrightarrow> 0 < ttl_cfg (options c) \<and> now' < now + ttl_cfg (options c)"
  shows "fst (LruCache_get key now' (LruCache_set key v now c)) = Some v"
proof -
  have m: "map_of (items (LruCache_set key v now c)) key = Some (snd (record_of c (key, v, now)))"
    using assms by (intro set_keeps_new_record) auto
  have ne: "\<not> (hasTtl (LruCache_set key v now c) \<and> isExpired (snd (record_of c (key, v, now))) now')"
    using assms(2) by (auto simp: record_of_def isExpired_def)
  have wv: "wrapped_value (snd (record_of c (key, v, now))) = v"
    by (simp add: record_of_def)
  show ?thesis
    unfolding LruCache_get_def m using ne by (simp add: wv)
qed

section \<open>Lemmas about the memoized function\<close>

lemma memoized_hit:
  assumes "fst (LruCache_get (fst (callKey fk args w)) now (cache w)) = Some entry"
  shows "memoized func fk args now later w =
           (Return (cached_result entry),
            (snd (callKey fk args w))\<lparr>cache := snd (LruCache_get (fst (callKey fk args w)) now (cache w))\<rparr>)"
  using assms by (simp add: memoized_def split_beta Let_def callKey_frame)

lemma memoized_miss:
  assumes "fst (LruCache_get (fst (callKey fk args w)) now (cache w)) = None"
  shows "memoized func fk args now later w =
           (let key = fst (callKey fk args w);
                w3 = (snd (callKey fk args w))
                       \<lparr>cache := snd (LruCache_get key now (cache w)),
                        user := snd (fn_body func args (user w)),
                        calls := calls w @ [(fn_ref func, args)]\<rparr>
            in case fst (fn_body func args (user w)) of
                 Throw e \<Rightarrow> (Throw e, w3)
               | Return result \<Rightarrow>
                   (Return (fst (if isPromise result then cachePromiseResult key result later w3
                         else if isAsyncGenerator result
                         then cacheAsyncGeneratorResult key result later w3
                         else if isGenerator result then cacheGeneratorResult key result later w3
                         else cacheSyncResult key result later w3)),
                    snd (if isPromise result then cachePromiseResult key result later w3
                         else if isAsyncGenerator result
                         then cacheAsyncGeneratorResult key result later w3
                         else if isGenerator result then cacheGeneratorResult key result later w3
                         else cacheSyncResult key result later w3)))"
  using assms
  by (simp add: memoized_def split_beta Let_def callKey_frame split: completion.splits)

lemma same_registry_refl [simp]: "same_registry w w"
  by (simp add: same_registry_def)

lemma same_registry_updates [simp]:
  "same_registry w (w'\<lparr>cache := c\<rparr>) = same_registry w w'"
  "same_registry w (w'\<lparr>user := u\<rparr>) = same_registry w w'"
  "same_registry w (w'\<lparr>calls := cs\<rparr>) = same_registry w w'"
  "same_registry w (w'\<lparr>promises := ps\<rparr>) = same_registry w w'"
  "same_registry w (w'\<lparr>nextPromise := n\<rparr>) = same_registry w w'"
  by (simp_all add: same_registry_def)

lemma get_fields [simp]:
  "options (snd (LruCache_get key now c)) = options c"
  "hasTtl (snd (LruCache_get key now c)) = hasTtl c"
  by (simp_all add: LruCache_get_def split: option.splits)

text \<open>A miss leaves no record under the key.\<close>

lemma get_None_absent:
  assumes "fst (LruCache_get key now c) = None"
  shows "map_of (items (snd (LruCache_get key now c))) key = None"
proof (cases "map_of (items c) key")
  case None
  then show ?thesis by (simp add: LruCache_get_def)
next
  case (Some e)
  with assms show ?thesis
    by (auto simp: LruCache_get_def AList.delete_conv' split: if_splits)
qed

lemma get_absent:
  "map_of (items c) key = None \<Longrightarrow> LruCache_get key now c = (None, c)"
  by (simp add: LruCache_get_def)


lemma get_live_record:
  assumes "map_of (items c) key = Some entry" "\<not> (hasTtl c \<and> isExpired entry now)"
  shows "fst (LruCache_get key now c) = Some (wrapped_value entry)"
  using assms by (auto simp: LruCache_get_def)

text \<open>
  The first call misses and the function returns a plain value: the value is stored
  marshalled, and a second call within the lifetime of the record returns it unmarshalled
  without calling the function.
\<close>

lemma memoized_twice:
  fixes func :: "'u MemoizableFunction"
  assumes miss: "fst (LruCache_get (fst (callKey fk args w)) now (cache w)) = None"
    and body: "fst (fn_body func args (user w)) = Return r"
    and plain: "\<not> isPromise r" "\<not> isAsyncGenerator r" "\<not> isGenerator r"
    and cap: "0 < max_cfg (options (cache w))"
    and ttl: "hasTtl (cache w) \<Longrightarrow>
                0 < ttl_cfg (options (cache w)) \<and> now' < later + ttl_cfg (options (cache w))"
  defines "w1 \<equiv> snd (memoized func fk args now later w)"
  shows "fst (memoized func fk args now later w) = Return r
       \<and> fst (LruCache_get (fst (callKey fk args w)) now' (cache w1))
           = Some (ValueEntry (marshallUndefined r))
       \<and> fst (memoized func fk args now' later' w1) = Return (unmarshallUndefined (marshallUndefined r))
       \<and> calls (snd (memoized func fk args now' later' w1)) = calls w @ [(fn_ref func, args)]
       \<and> user (snd (memoized func fk args now' later' w1)) = snd (fn_body func args (user w))"
proof -
  let ?key = "fst (callKey fk args w)"
  let ?c = "snd (LruCache_get ?key now (cache w))"
  let ?w3 = "(snd (callKey fk args w))
               \<lparr>cache := ?c, user := snd (fn_body func args (user w)),
                calls := calls w @ [(fn_ref func, args)]\<rparr>"
  have first: "memoized func fk args now later w =
      (Return r, ?w3\<lparr>cache := LruCache_set ?key (ValueEntry (marshallUndefined r)) later ?c\<rparr>)"
    using memoized_miss[OF miss, of func later] body plain
    by (simp add: Let_def cacheSyncResult_def)
  have p1: "fst (memoized func fk args now later w) = Return r" by (simp add: first)
  have w1: "w1 = ?w3\<lparr>cache := LruCache_set ?key (ValueEntry (marshallUndefined r)) later ?c\<rparr>"
    by (simp add: w1_def first)
  have reg: "same_registry (snd (callKey fk args w)) w1" by (simp add: w1)
  have key: "callKey fk args w1 = (?key, w1)" by (rule callKey_stable[OF reg])
  have c1: "cache w1 = LruCache_set ?key (ValueEntry (marshallUndefined r)) later ?c"
    by (simp add: w1)
  have hit: "fst (LruCache_get ?key now' (cache w1)) = Some (ValueEntry (marshallUndefined r))"
    unfolding c1 using cap ttl by (intro get_after_set) simp_all
  then have hit': "fst (LruCache_get (fst (callKey fk args w1)) now' (cache w1))
                    = Some (ValueEntry (marshallUndefined r))"
    by (simp add: key)
  from memoized_hit[OF hit', of func later']
  have second: "memoized func fk args now' later' w1 =
      (Return (unmarshallUndefined (marshallUndefined r)),
       w1\<lparr>cache := snd (LruCache_get ?key now' (cache w1))\<rparr>)"
    by (simp add: key)
  have p3: "fst (memoized func fk args now' later' w1) = Return (unmarshallUndefined (marshallUndefined r))"
    by (simp add: second)
  have p4: "calls (snd (memoized func fk args now' later' w1)) = calls w @ [(fn_ref func, args)]"
    by (simp add: second) (simp add: w1)
  have p5: "user (snd (memoized func fk args now' later' w1)) = snd (fn_body func args (user w))"
    by (simp add: second) (simp add: w1)
  from p1 hit p3 p4 p5 show ?thesis by blast
qed

lemma memoize_frame [simp]:
  "cache (snd (memoize func w)) = cache w"
  "promises (snd (memoize func w)) = promises w"
  "nextPromise (snd (memoize func w)) = nextPromise w"
  "user (snd (memoize func w)) = user w"
  "calls (snd (memoize func w)) = calls w"
  by (simp_all add: memoize_def idForFunction_def Let_def split: option.splits)

lemma initial_world_simps [simp]:
  "cache (initial_world u) = new_LruCache \<lparr>max_opt = Some 100, ttl_opt = Some 300000\<rparr>"
  "promises (initial_world u) = Map.empty"
  "nextPromise (initial_world u) = 0"
  "user (initial_world u) = u"
  "calls (initial_world u) = []"
  by (simp_all add: initial_world_def defaultOptions_def)

lemma memoize_initial:
  "fst (memoize \<lparr>fn_ref = 0, fn_body = b\<rparr> (initial_world u)) = ''fn:0''"
  by (simp add: memoize_def idForFunction_def initial_world_def Let_def show_nat.simps)

lemma callKey_Nil [simp]: "callKey fk [] w = (fk, w)"
  by (simp add: callKey_def)


lemma cache_results_frame:
  "calls (snd (cachePromiseResult key r t w)) = calls w"
  "calls (snd (cacheAsyncGeneratorResult key r t w)) = calls w"
  "calls (snd (cacheGeneratorResult key r t w)) = calls w"
  "calls (snd (cacheSyncResult key r t w)) = calls w"
  "same_registry w0 (snd (cachePromiseResult key r t w)) = same_registry w0 w"
  "same_registry w0 (snd (cacheAsyncGeneratorResult key r t w)) = same_registry w0 w"
  "same_registry w0 (snd (cacheGeneratorResult key r t w)) = same_registry w0 w"
  "same_registry w0 (snd (cacheSyncResult key r t w)) = same_registry w0 w"
  by (simp_all add: cachePromiseResult_def cacheAsyncGeneratorResult_def
        cacheGeneratorResult_def cacheSyncResult_def Let_def)

text \<open>A miss calls the wrapped function, whatever it answers.\<close>

lemma memoized_miss_calls:
  assumes "fst (LruCache_get (fst (callKey fk args w)) now (cache w)) = None"
  shows "calls (snd (memoized func fk args now later w)) = calls w @ [(fn_ref func, args)]"
  unfolding memoized_miss[OF assms] Let_def
  by (simp add: cache_results_frame split: completion.splits)

lemma memoized_miss_throw:
  assumes "fst (LruCache_get (fst (callKey fk args w)) now (cache w)) = None"
    and "fst (fn_body func args (user w)) = Throw e"
  shows "memoized func fk args now later w =
           (Throw e,
            (snd (callKey fk args w))
               \<lparr>cache := snd (LruCache_get (fst (callKey fk args w)) now (cache w)),
                user := snd (fn_body func args (user w)),
                calls := calls w @ [(fn_ref func, args)]\<rparr>)"
  unfolding memoized_miss[OF assms(1)] Let_def using assms(2) by simp

lemma get_miss_store:
  assumes "fst (LruCache_get key now c) = None"
  shows "snd (LruCache_get key now c) =
           (case map_of (items c) key of
              None \<Rightarrow> c
            | Some entry \<Rightarrow> c\<lparr>items := AList.delete key (items c)\<rparr>)"
  using assms by (auto simp: LruCache_get_def split: option.splits if_splits)

lemma succeeds_once_first_call:
  "memoized \<lparr>fn_ref = 0, fn_body = succeeds_once\<rparr> ''fn:0'' [] 0 0
     (snd (memoize \<lparr>fn_ref = 0, fn_body = succeeds_once\<rparr> (initial_world 0)))
   = (Return (JNumber (OtherNumber ''1'')),
      (snd (memoize \<lparr>fn_ref = 0, fn_body = succeeds_once\<rparr> (initial_world 0)))
        \<lparr>cache := \<lparr>options = \<lparr>max_cfg = 100, ttl_cfg = 300000\<rparr>,
                   items = [(''fn:0'', \<lparr>wrapped_value = ValueEntry (Plain (JNumber (OtherNumber ''1''))),
                                         expiresAt = Some 300000\<rparr>)],
                   hasTtl = True\<rparr>,
         user := Suc 0, calls := [(0, [])]\<rparr>)"
proof -
  let ?f = "\<lparr>fn_ref = 0, fn_body = succeeds_once\<rparr>"
  let ?w = "snd (memoize ?f (initial_world 0))"
  have miss: "fst (LruCache_get (fst (callKey ''fn:0'' [] ?w)) 0 (cache ?w)) = None"
    by (simp add: LruCache_get_def)
  have set: "LruCache_set ''fn:0'' (ValueEntry (Plain (JNumber (OtherNumber ''1'')))) 0
               (new_LruCache \<lparr>max_opt = Some 100, ttl_opt = Some 300000\<rparr>)
             = \<lparr>options = \<lparr>max_cfg = 100, ttl_cfg = 300000\<rparr>,
                items = [(''fn:0'', \<lparr>wrapped_value = ValueEntry (Plain (JNumber (OtherNumber ''1''))),
                                      expiresAt = Some 300000\<rparr>)],
                hasTtl = True\<rparr>"
    by (simp add: LruCache_set_def evictOverflow_def pruneExpired_def isExpired_def
          new_LruCache_def defaultOptions_def Let_def)
  show ?thesis
    unfolding memoized_miss[OF miss]
    by (simp add: succeeds_once_def cacheSyncResult_def LruCache_get_def set)
qed

subsection \<open>The memoized function over a body that may call into the module\<close>

lemma memoized_as_reentrant:
  "memoized func fk args now later w
     = memoized_reentrant (as_module_function func) fk args now later w"
  by (simp add: memoized_def memoized_reentrant_def as_module_function_def split_beta Let_def
        cachePromiseResult_def cacheAsyncGeneratorResult_def cacheGeneratorResult_def
        cacheSyncResult_def
      split: option.splits completion.splits)

lemma memoized_reentrant_miss:
  assumes "fst (LruCache_get (fst (callKey fk args w)) now (cache w)) = None"
  shows "memoized_reentrant func fk args now later w =
           (let key = fst (callKey fk args w);
                w3 = snd (mf_body func args (call_start func fk args now w))
            in case fst (mf_body func args (call_start func fk args now w)) of
                 Throw e \<Rightarrow> (Throw e, w3)
               | Return result \<Rightarrow>
                   (Return (fst (if isPromise result then cachePromiseResult key result later w3
                         else if isAsyncGenerator result
                         then cacheAsyncGeneratorResult key result later w3
                         else if isGenerator result then cacheGeneratorResult key result later w3
                         else cacheSyncResult key result later w3)),
                    snd (if isPromise result then cachePromiseResult key result later w3
                         else if isAsyncGenerator result
                         then cacheAsyncGeneratorResult key result later w3
                         else if isGenerator result then cacheGeneratorResult key result later w3
                         else cacheSyncResult key result later w3)))"
  using assms
  by (simp add: memoized_reentrant_def call_start_def split_beta Let_def callKey_frame
      split: completion.splits)

lemma memoized_reentrant_miss_throw:
  assumes "fst (LruCache_get (fst (callKey fk args w)) now (cache w)) = None"
    and "fst (mf_body func args (call_start func fk args now w)) = Throw e"
  shows "memoized_reentrant func fk args now later w =
           (Throw e, snd (mf_body func args (call_start func fk args now w)))"
  unfolding memoized_reentrant_miss[OF assms(1)] Let_def using assms(2) by simp

lemma memoized_reentrant_miss_calls:
  assumes "fst (LruCache_get (fst (callKey fk args w)) now (cache w)) = None"
    and "calls (snd (mf_body func args (call_start func fk args now w)))
           = calls (call_start func fk args now w)"
  shows "calls (snd (memoized_reentrant func fk args now later w)) = calls w @ [(mf_ref func, args)]"
  unfolding memoized_reentrant_miss[OF assms(1)] Let_def
  using assms(2) by (simp add: cache_results_frame call_start_def split: completion.splits)

lemma call_start_simps [simp]:
  "cache (call_start func fk args now w) = snd (LruCache_get (fst (callKey fk args w)) now (cache w))"
  "calls (call_start func fk args now w) = calls w @ [(mf_ref func, args)]"
  "user (call_start func fk args now w) = user w"
  "promises (call_start func fk args now w) = promises w"
  "same_registry w0 (call_start func fk args now w) = same_registry w0 (snd (callKey fk args w))"
  by (simp_all add: call_start_def callKey_frame)

lemma idForFunction_frame [simp]:
  "cache (snd (idForFunction r w)) = cache w"
  "promises (snd (idForFunction r w)) = promises w"
  "user (snd (idForFunction r w)) = user w"
  "calls (snd (idForFunction r w)) = calls w"
  by (simp_all add: idForFunction_def Let_def split: option.splits)




lemma returns_promise_first_call:
  "memoized \<lparr>fn_ref = 0, fn_body = returns_promise\<rparr> ''fn:0'' [JNull] 0 2
     (snd (memoize \<lparr>fn_ref = 0, fn_body = returns_promise\<rparr> (initial_world 0)))
   = (Return (JLibraryPromise 1),
      (snd (memoize \<lparr>fn_ref = 0, fn_body = returns_promise\<rparr> (initial_world 0)))
        \<lparr>cache := \<lparr>options = \<lparr>max_cfg = 100, ttl_cfg = 300000\<rparr>,
                   items = [(''fn:0|null'', \<lparr>wrapped_value = PromiseEntry (JLibraryPromise 0),
                                              expiresAt = Some 300002\<rparr>)],
                   hasTtl = True\<rparr>,
         user := Suc 0, calls := [(0, [JNull])],
         promises := [0 \<mapsto> Awaiting (JObject 0 \<lparr>callableThen = True, callableNext = False,
                         hasIterator = False, hasAsyncIterator = False\<rparr>) ''fn:0|null'',
                      1 \<mapsto> Adopting 0],
         nextPromise := 2\<rparr>)"
proof -
  let ?f = "\<lparr>fn_ref = 0, fn_body = returns_promise\<rparr>"
  let ?w = "snd (memoize ?f (initial_world 0))"
  have miss: "fst (LruCache_get (fst (callKey ''fn:0'' [JNull] ?w)) 0 (cache ?w)) = None"
    by (simp add: LruCache_get_def)
  have set: "LruCache_set ''fn:0|null'' (PromiseEntry (JLibraryPromise 0)) 2
               (new_LruCache \<lparr>max_opt = Some 100, ttl_opt = Some 300000\<rparr>)
             = \<lparr>options = \<lparr>max_cfg = 100, ttl_cfg = 300000\<rparr>,
                items = [(''fn:0|null'', \<lparr>wrapped_value = PromiseEntry (JLibraryPromise 0),
                                           expiresAt = Some 300002\<rparr>)],
                hasTtl = True\<rparr>"
    by (simp add: LruCache_set_def evictOverflow_def pruneExpired_def isExpired_def
          new_LruCache_def defaultOptions_def Let_def)
  show ?thesis
    unfolding memoized_miss[OF miss]
    by (simp add: returns_promise_def cachePromiseResult_def LruCache_get_def set callKey_def Let_def)
qed

section \<open>Lemmas about reconfiguration\<close>

lemma entries_loop_yield:
  "fst (entries_loop ys now c) =
     map (\<lambda>p. (fst p, wrapped_value (snd p)))
         (filter (\<lambda>p. \<not> (hasTtl c \<and> isExpired (snd p) now)) ys)"
proof (induction ys now c rule: entries_loop.induct)
  case (1 now c)
  then show ?case by simp
next
  case (2 key entry rest now c)
  show ?case
  proof (cases "hasTtl c \<and> isExpired entry now")
    case True
    with 2(1)[OF True] show ?thesis by simp
  next
    case False
    from False have "entries_loop ((key, entry) # rest) now c =
        (let (ys, c') = entries_loop rest now c in ((key, wrapped_value entry) # ys, c'))"
      by auto
    with 2(2)[OF False] False show ?thesis by (simp add: split_beta)
  qed
qed

lemma foldl_set_insert_all:
  "foldl (\<lambda>newCache (key, v). LruCache_set key v now newCache) c es
     = insert_all (map (\<lambda>(key, v). (key, v, now)) es) c"
  by (induction es arbitrary: c) (simp_all add: insert_all_def run_ops_def split_beta)

lemma setup_cache_insert_all:
  "setup_cache opts now old =
     insert_all (map (\<lambda>p. (fst p, wrapped_value (snd p), now)) (live_items now old))
                (new_LruCache opts)"
  by (simp add: setup_cache_def LruCache_entries_def entries_loop_yield foldl_set_insert_all
        live_items_def split_beta comp_def)

lemma setup_cache_fields [simp]:
  "options (setup_cache opts now old) =
     \<lparr>max_cfg = (case max_opt opts of None \<Rightarrow> 100 | Some m \<Rightarrow> m),
      ttl_cfg = (case ttl_opt opts of None \<Rightarrow> 300000 | Some t \<Rightarrow> t)\<rparr>"
  "hasTtl (setup_cache opts now old) = (0 < (case ttl_opt opts of None \<Rightarrow> 300000 | Some t \<Rightarrow> t))"
  by (simp_all add: setup_cache_insert_all)

lemma setup_cache_items:
  fixes old :: "'v LruCache"
  assumes "distinct (map fst (items old))"
    and "int (length (live_items now old)) \<le> max_cfg (options (new_LruCache opts :: 'v LruCache))"
  shows "items (setup_cache opts now old) =
           map (\<lambda>p. record_of (new_LruCache opts :: 'v LruCache) (fst p, wrapped_value (snd p), now))
               (live_items now old)"
proof -
  let ?new = "new_LruCache opts :: 'v LruCache"
  let ?kvts = "map (\<lambda>p. (fst p, wrapped_value (snd p), now)) (live_items now old)"
  have e: "items ?new = []" by simp
  have m: "0 \<le> max_cfg (options ?new)" using assms(2) by linarith
  have d: "distinct (map fst ?kvts)"
    using assms(1) by (simp add: live_items_def comp_def distinct_map_filter)
  have ne: "no_expiry ?new (map (\<lambda>x. snd (snd x)) ?kvts)"
    by (auto simp: no_expiry_def)
  have "length ?kvts - nat (max_cfg (options ?new)) = 0"
    using assms(2) by simp
  with insert_all_exact[OF e m d ne] show ?thesis
    by (simp add: setup_cache_insert_all comp_def del: new_LruCache_simps)
qed

lemma pruneExpired_none:
  assumes "\<forall>p \<in> set (items c). \<not> isExpired (snd p) now"
  shows "pruneExpired now c = c"
proof -
  have "filter (\<lambda>p. \<not> (\<exists>e. (fst p, e) \<in> set (items c) \<and> isExpired e now)) (items c) = items c"
    using assms by (auto simp: filter_id_conv)
  then show ?thesis by (simp add: pruneExpired_def prune_loop_filter)
qed

subsection \<open>Every key is held once\<close>

text \<open>
  A JavaScript \<open>Map\<close> holds a key at most once. The list that stands for it has distinct
  keys in the new store, and every operation keeps them distinct.
\<close>

lemma distinct_delete_keys:
  "distinct (map fst xs) \<Longrightarrow> distinct (map fst (AList.delete k xs))"
  by (simp add: AList.delete_eq distinct_map_filter)

lemma distinct_move_to_end:
  "distinct (map fst xs) \<Longrightarrow> distinct (map fst (AList.update k e (AList.delete k xs)))"
  by (simp add: AList.distinct_update distinct_delete_keys)

lemma distinct_pruneExpired:
  "distinct (map fst (items c)) \<Longrightarrow> distinct (map fst (items (pruneExpired now c)))"
  by (simp add: pruneExpired_def prune_loop_filter distinct_map_filter)

lemma distinct_evictOverflow:
  "distinct (map fst (items c)) \<Longrightarrow> distinct (map fst (items (evictOverflow now c)))"
  by (simp add: evictOverflow_def Let_def evict_loop_filter distinct_map_filter distinct_pruneExpired)

lemma distinct_set:
  "distinct (map fst (items c)) \<Longrightarrow> distinct (map fst (items (LruCache_set key v now c)))"
  unfolding LruCache_set_def Let_def
  by (rule distinct_evictOverflow) (simp add: distinct_move_to_end)

lemma distinct_get:
  "distinct (map fst (items c)) \<Longrightarrow> distinct (map fst (items (snd (LruCache_get key now c))))"
  by (simp add: LruCache_get_def distinct_move_to_end distinct_delete_keys split: option.splits)

lemma distinct_has:
  "distinct (map fst (items c)) \<Longrightarrow> distinct (map fst (items (snd (LruCache_has key now c))))"
  by (simp add: LruCache_has_def distinct_delete_keys split: option.splits)

lemma distinct_entries_loop:
  "distinct (map fst (items c)) \<Longrightarrow> distinct (map fst (items (snd (entries_loop ys now c))))"
proof (induction ys now c rule: entries_loop.induct)
  case (1 now c)
  then show ?case by simp
next
  case (2 key entry rest now c)
  show ?case
  proof (cases "hasTtl c \<and> isExpired entry now")
    case True
    with 2(1)[OF True] 2(3) show ?thesis by (simp add: distinct_delete_keys)
  next
    case False
    from False have "entries_loop ((key, entry) # rest) now c =
        (let (ys, c') = entries_loop rest now c in ((key, wrapped_value entry) # ys, c'))"
      by auto
    with 2(2)[OF False] 2(3) show ?thesis by (simp add: split_beta)
  qed
qed

lemma distinct_apply_op:
  "distinct (map fst (items c)) \<Longrightarrow> distinct (map fst (items (apply_op op c)))"
  by (cases op)
     (simp_all add: distinct_set distinct_get distinct_has distinct_delete_keys
        distinct_pruneExpired distinct_entries_loop LruCache_delete_def LruCache_clear_def
        LruCache_size_def LruCache_entries_def Let_def)

lemma distinct_run_ops:
  "distinct (map fst (items c)) \<Longrightarrow> distinct (map fst (items (run_ops ops c)))"
  by (induction ops rule: rev_induct) (simp_all add: distinct_apply_op)

lemma distinct_setup_cache: "distinct (map fst (items (setup_cache opts now old)))"
  unfolding setup_cache_insert_all insert_all_def
  by (rule distinct_run_ops) simp

lemma distinct_memoized:
  assumes "distinct (map fst (items (cache w)))"
  shows "distinct (map fst (items (cache (snd (memoized func fk args now later w)))))"
proof (cases "fst (LruCache_get (fst (callKey fk args w)) now (cache w))")
  case None
  have d: "distinct (map fst (items (snd (LruCache_get (fst (callKey fk args w)) now (cache w)))))"
    using assms by (rule distinct_get)
  show ?thesis
    unfolding memoized_miss[OF None] Let_def
    using d
    by (simp add: cachePromiseResult_def cacheAsyncGeneratorResult_def cacheGeneratorResult_def
          cacheSyncResult_def Let_def distinct_set split: completion.splits)
next
  case (Some entry)
  show ?thesis
    unfolding memoized_hit[OF Some] using assms by (simp add: distinct_get)
qed

section \<open>The claims about the store\<close>

text \<open>
  Claim C4 (capacity bound). Take a store constructed with a capacity \<open>max \<ge> 0\<close>. After
  any sequence of \<open>set\<close>, \<open>get\<close>, \<open>has\<close>, \<open>delete\<close>, \<open>clear\<close>, \<open>size\<close> and \<open>entries\<close> calls,
  at any clock readings, the map holds at most \<open>max\<close> records and \<open>size\<close> reports at most
  \<open>max\<close>; a store constructed with \<open>max = 0\<close> is empty after any such sequence. When
  \<open>N\<close> distinct keys are inserted into the new store at non-decreasing clock readings, the
  keys that remain are a suffix of the inserted keys, so every key that is gone was
  inserted before every key that is left, and at least \<open>N - max\<close> are gone; when no record
  expires during the insertions, exactly the last \<open>max\<close> keys remain. In any state the
  store can reach, a \<open>set\<close> moves its key to the end of the iteration order, and what is
  left afterwards is the unexpired records without some of the first of them: eviction
  takes from the oldest end of that order.
\<close>

theorem capacity_bound:
  fixes cfg :: CacheConfig and ops :: "'v store_op list" and kvts :: "(string \<times> 'v \<times> int) list"
  assumes "0 \<le> LruCache_max (new_LruCache cfg :: 'v LruCache)"
  shows "int (length (items (run_ops ops (new_LruCache cfg)))) \<le> LruCache_max (new_LruCache cfg :: 'v LruCache)
       \<and> int (fst (LruCache_size now (run_ops ops (new_LruCache cfg)))) \<le> LruCache_max (new_LruCache cfg :: 'v LruCache)
       \<and> items (run_ops ops (new_LruCache (cfg\<lparr>max_opt := Some 0\<rparr>) :: 'v LruCache)) = []
       \<and> (distinct (map fst kvts) \<and> sorted (map (\<lambda>x. snd (snd x)) kvts) \<longrightarrow>
            (\<exists>n. length kvts - nat (LruCache_max (new_LruCache cfg :: 'v LruCache)) \<le> n \<and>
                 map fst (items (insert_all kvts (new_LruCache cfg))) = drop n (map fst kvts)))
       \<and> (distinct (map fst kvts) \<and> no_expiry (new_LruCache cfg :: 'v LruCache) (map (\<lambda>x. snd (snd x)) kvts) \<longrightarrow>
            map fst (items (insert_all kvts (new_LruCache cfg))) =
              drop (length kvts - nat (LruCache_max (new_LruCache cfg :: 'v LruCache))) (map fst kvts))
       \<and> (\<exists>n. items (LruCache_set key v t (run_ops ops (new_LruCache cfg))) =
              drop n (filter (\<lambda>p. \<not> (hasTtl (new_LruCache cfg :: 'v LruCache) \<and> isExpired (snd p) t))
                        (AList.delete key (items (run_ops ops (new_LruCache cfg)))
                           @ [record_of (new_LruCache cfg :: 'v LruCache) (key, v, t)])))"
proof -
  let ?c0 = "new_LruCache cfg :: 'v LruCache"
  have m: "0 \<le> max_cfg (options ?c0)" using assms by (simp add: LruCache_max_def)
  have e: "int (length (items ?c0)) \<le> max_cfg (options ?c0)" using m by simp
  have bound: "int (length (items (run_ops os ?c0))) \<le> max_cfg (options ?c0)" for os
    by (rule size_run_ops[OF m e])
  have p1: "int (length (items (run_ops ops ?c0))) \<le> LruCache_max ?c0"
    using bound by (simp add: LruCache_max_def)
  have "fst (LruCache_size now (run_ops ops ?c0)) \<le> length (items (run_ops ops ?c0))"
    by (simp add: LruCache_size_def Let_def length_pruneExpired)
  with p1 have p2: "int (fst (LruCache_size now (run_ops ops ?c0))) \<le> LruCache_max ?c0"
    by linarith
  have p3: "items (run_ops ops (new_LruCache (cfg\<lparr>max_opt := Some 0\<rparr>) :: 'v LruCache)) = []"
  proof -
    let ?z = "new_LruCache (cfg\<lparr>max_opt := Some 0\<rparr>) :: 'v LruCache"
    have z: "max_cfg (options ?z) = 0" by (simp add: new_LruCache_def Let_def)
    have "int (length (items (run_ops ops ?z))) \<le> max_cfg (options ?z)"
      by (rule size_run_ops) (simp_all add: z)
    then show ?thesis by (simp add: z)
  qed
  have p4: "\<exists>n. length kvts - nat (LruCache_max ?c0) \<le> n \<and>
                 map fst (items (insert_all kvts ?c0)) = drop n (map fst kvts)"
    if "distinct (map fst kvts)" "sorted (map (\<lambda>x. snd (snd x)) kvts)"
  proof -
    from insert_all_suffix[OF _ that, of ?c0]
    obtain n where n: "items (insert_all kvts ?c0) = map (record_of ?c0) (drop n kvts)"
      by auto
    have "int (length (items (insert_all kvts ?c0))) \<le> max_cfg (options ?c0)"
      unfolding insert_all_def by (rule bound)
    then have "length kvts - nat (LruCache_max ?c0) \<le> n"
      unfolding n LruCache_max_def by simp
    moreover have "map fst (items (insert_all kvts ?c0)) = drop n (map fst kvts)"
      by (simp add: n drop_map)
    ultimately show ?thesis by blast
  qed
  have p5: "map fst (items (insert_all kvts ?c0)) =
              drop (length kvts - nat (LruCache_max ?c0)) (map fst kvts)"
    if "distinct (map fst kvts)" "no_expiry ?c0 (map (\<lambda>x. snd (snd x)) kvts)"
    using insert_all_exact[OF _ m that] by (simp add: drop_map LruCache_max_def)
  have p6: "\<exists>n. items (LruCache_set key v t (run_ops ops ?c0)) =
              drop n (filter (\<lambda>p. \<not> (hasTtl ?c0 \<and> isExpired (snd p) t))
                        (AList.delete key (items (run_ops ops ?c0)) @ [record_of ?c0 (key, v, t)]))"
  proof -
    let ?cur = "run_ops ops ?c0"
    let ?xs = "AList.delete key (items ?cur) @ [record_of ?c0 (key, v, t)]"
    let ?c' = "?cur\<lparr>items := ?xs\<rparr>"
    have rc: "record_of ?cur = record_of ?c0" by (rule record_of_cong) simp_all
    have step: "LruCache_set key v t ?cur = evictOverflow t ?c'"
      by (simp add: LruCache_set_def Let_def update_delete_append record_of_def)
    have d: "distinct (map fst (items ?c'))"
    proof -
      have "distinct (map fst (items ?cur))" by (rule distinct_run_ops) simp
      then have "distinct (map fst (AList.delete key (items ?cur)))" by (rule distinct_delete_keys)
      moreover have "key \<notin> fst ` set (AList.delete key (items ?cur))"
        by (rule AList.delete_notin_dom)
      ultimately show ?thesis by simp
    qed
    show ?thesis
    proof (cases "max_cfg (options ?c0) \<le> 0")
      case True
      then have "items (LruCache_set key v t ?cur) = []"
        unfolding step by (simp add: evictOverflow_def)
      moreover have "drop (length ?xs) (filter (\<lambda>p. \<not> (hasTtl ?c0 \<and> isExpired (snd p) t)) ?xs) = []"
        by (rule drop_all) (rule length_filter_le)
      ultimately have "items (LruCache_set key v t ?cur) =
          drop (length ?xs) (filter (\<lambda>p. \<not> (hasTtl ?c0 \<and> isExpired (snd p) t)) ?xs)"
        by simp
      then show ?thesis by (rule exI)
    next
      case False
      then have "0 < max_cfg (options ?c')" by simp
      from evictOverflow_distinct[OF d this, of t]
      obtain n where "items (evictOverflow t ?c') =
          drop n (if hasTtl ?c' then filter (\<lambda>p. \<not> isExpired (snd p) t) (items ?c') else items ?c')"
        by blast
      then have "items (LruCache_set key v t ?cur) =
                   drop n (filter (\<lambda>p. \<not> (hasTtl ?c0 \<and> isExpired (snd p) t)) ?xs)"
        unfolding step by (cases "hasTtl ?c0") simp_all
      then show ?thesis by (rule exI)
    qed
  qed
  from p1 p2 p3 p4 p5 p6 show ?thesis by (intro conjI impI) auto
qed

theorem capacity_bound_witness:
  "int (length (items (run_ops [OpSet ''a'' (1::nat) 0, OpSet ''b'' 2 1, OpGet ''a'' 2, OpSet ''c'' 3 3]
          (new_LruCache \<lparr>max_opt = Some 2, ttl_opt = Some 100\<rparr>)))) \<le> 2
   \<and> distinct [''a'', ''b'', ''c''] \<and> sorted [0, 1, 2 :: int]
   \<and> map fst (items (insert_all [(''a'', 1::nat, 0), (''b'', 2, 1), (''c'', 3, 2)]
          (new_LruCache \<lparr>max_opt = Some 2, ttl_opt = Some 100\<rparr>))) = [''b'', ''c'']"
  using capacity_bound[where cfg = "\<lparr>max_opt = Some 2, ttl_opt = Some 100\<rparr>"
      and ops = "[OpSet ''a'' (1::nat) 0, OpSet ''b'' 2 1, OpGet ''a'' 2, OpSet ''c'' 3 3]"
      and now = 4 and kvts = "[(''a'', 1::nat, 0), (''b'', 2, 1), (''c'', 3, 2)]"]
  by (simp add: no_expiry_def new_LruCache_def LruCache_max_def Let_def)

text \<open>
  Claim C6 (TTL expiry). Take a store constructed with \<open>ttl = T > 0\<close>, in any state it can
  reach, and insert a key at clock reading \<open>t\<close>. Whatever calls other than a new \<open>set\<close> of
  that key follow, once the clock has reached \<open>t + T\<close> both \<open>has\<close> and \<open>get\<close> report the key
  absent and leave no record under it. Moreover, whenever \<open>get\<close> on such a store returns a
  payload, it is the payload of the record under that key, and the \<open>expiresAt\<close> of that
  record is later than the clock reading of the call.
\<close>

theorem ttl_expiry:
  fixes cfg :: CacheConfig and before after ops :: "'v store_op list"
  assumes "0 < ttl_cfg (options (new_LruCache cfg :: 'v LruCache))"
    and "\<forall>op \<in> set after. \<not> sets_key key op"
    and "t + ttl_cfg (options (new_LruCache cfg :: 'v LruCache)) \<le> now"
  shows "fst (LruCache_has key now
                (run_ops after (LruCache_set key v t (run_ops before (new_LruCache cfg))))) = False
       \<and> key \<notin> fst ` set (items (snd (LruCache_has key now
                (run_ops after (LruCache_set key v t (run_ops before (new_LruCache cfg)))))))
       \<and> fst (LruCache_get key now
                (run_ops after (LruCache_set key v t (run_ops before (new_LruCache cfg))))) = None
       \<and> key \<notin> fst ` set (items (snd (LruCache_get key now
                (run_ops after (LruCache_set key v t (run_ops before (new_LruCache cfg)))))))
       \<and> (\<forall>x. fst (LruCache_get key' now' (run_ops ops (new_LruCache cfg))) = Some x \<longrightarrow>
              (\<exists>entry. map_of (items (run_ops ops (new_LruCache cfg))) key' = Some entry
                 \<and> wrapped_value entry = x
                 \<and> (\<forall>e. expiresAt entry = Some e \<longrightarrow> now' < e)))"
proof -
  let ?c0 = "new_LruCache cfg :: 'v LruCache"
  let ?c1 = "run_ops before ?c0"
  let ?c2 = "LruCache_set key v t ?c1"
  let ?c3 = "run_ops after ?c2"
  have ttl: "hasTtl ?c0" using assms(1) by simp
  then have h1: "hasTtl ?c1" and h3: "hasTtl ?c3" by (simp_all add: LruCache_set_def Let_def)
  have o1: "options ?c1 = options ?c0" by simp
  have expired: "isExpired e now" if "(key, e) \<in> set (items ?c3)" for e
  proof -
    from set_run_ops_other[OF assms(2) that] have "(key, e) \<in> set (items ?c2)" .
    then have "e = snd (record_of ?c1 (key, v, t))" by (rule set_record_only)
    then show ?thesis using h1 assms(3) by (simp add: record_of_def isExpired_def)
  qed
  then have all: "\<forall>e. (key, e) \<in> set (items ?c3) \<longrightarrow> isExpired e now" by blast
  have last: "\<exists>entry. map_of (items (run_ops ops ?c0)) key' = Some entry \<and> wrapped_value entry = x
                 \<and> (\<forall>e. expiresAt entry = Some e \<longrightarrow> now' < e)"
    if "fst (LruCache_get key' now' (run_ops ops ?c0)) = Some x" for x
  proof -
    from get_Some_live[OF that] obtain entry where
      "map_of (items (run_ops ops ?c0)) key' = Some entry" "wrapped_value entry = x"
      "\<not> (hasTtl (run_ops ops ?c0) \<and> isExpired entry now')" by blast
    moreover have "hasTtl (run_ops ops ?c0)" using ttl by simp
    ultimately show ?thesis by (auto simp: isExpired_def)
  qed
  show ?thesis
    using has_expired[OF h3 all] get_expired[OF h3 all] last by blast
qed

theorem ttl_expiry_witness:
  "fst (LruCache_has ''k'' 10
         (run_ops [OpGet ''k'' 5, OpSet ''j'' 2 6]
            (LruCache_set ''k'' (1::nat) 0
               (run_ops [] (new_LruCache \<lparr>max_opt = Some 2, ttl_opt = Some 10\<rparr>))))) = False
   \<and> fst (LruCache_get ''k'' 10
         (run_ops [OpGet ''k'' 5, OpSet ''j'' 2 6]
            (LruCache_set ''k'' (1::nat) 0
               (run_ops [] (new_LruCache \<lparr>max_opt = Some 2, ttl_opt = Some 10\<rparr>))))) = None
   \<and> fst (LruCache_get ''k'' 5
         (run_ops [OpSet ''k'' (1::nat) 0] (new_LruCache \<lparr>max_opt = Some 2, ttl_opt = Some 10\<rparr>)))
       = Some 1
   \<and> (\<exists>entry. map_of (items (run_ops [OpSet ''k'' (1::nat) 0]
                   (new_LruCache \<lparr>max_opt = Some 2, ttl_opt = Some 10\<rparr>))) ''k'' = Some entry
         \<and> expiresAt entry = Some 10)"
proof -
  have h: "fst (LruCache_get ''k'' 5
         (run_ops [OpSet ''k'' (1::nat) 0] (new_LruCache \<lparr>max_opt = Some 2, ttl_opt = Some 10\<rparr>)))
       = Some 1"
    by code_simp
  have e: "map_of (items (run_ops [OpSet ''k'' (1::nat) 0]
                   (new_LruCache \<lparr>max_opt = Some 2, ttl_opt = Some 10\<rparr>))) ''k''
           = Some \<lparr>wrapped_value = 1, expiresAt = Some 10\<rparr>"
    by code_simp
  from ttl_expiry[where cfg = "\<lparr>max_opt = Some 2, ttl_opt = Some 10\<rparr>"
      and after = "[OpGet ''k'' 5, OpSet ''j'' 2 6]" and key = "''k''" and t = 0 and now = 10
      and before = "[]" and v = "1::nat" and key' = "''k''" and now' = 5
      and ops = "[OpSet ''k'' (1::nat) 0]"] h e
  show ?thesis
    by (simp add: new_LruCache_def Let_def)
qed

text \<open>
  Claim C10 (setup resets the expiry clock). When the new configuration has
  \<open>ttl = T' > 0\<close>, every record of the store that \<open>setup\<close> installs has
  \<open>expiresAt = now + T'\<close>, where \<open>now\<close> is the clock reading of the \<open>setup\<close> call, whatever
  the old store and the old expiry times were.
\<close>

theorem setup_resets_expiry:
  fixes cache :: "'v LruCache"
  assumes "0 < ttl_cfg (options (new_LruCache opts :: 'v LruCache))"
  shows "\<forall>p \<in> set (items (setup_cache opts now cache)).
           expiresAt (snd p) = Some (now + ttl_cfg (options (new_LruCache opts :: 'v LruCache)))"
  unfolding setup_cache_def
  by (rule foldl_set_expiry) (use assms in simp_all)

theorem setup_resets_expiry_witness:
  "items (setup_cache \<lparr>max_opt = None, ttl_opt = Some 1000\<rparr> 9
            (LruCache_set ''k'' (1::nat) 0 (new_LruCache \<lparr>max_opt = Some 5, ttl_opt = Some 10\<rparr>)))
     = [(''k'', \<lparr>wrapped_value = 1, expiresAt = Some 1009\<rparr>)]"
proof -
  have e: "map (\<lambda>p. (fst p, wrapped_value (snd p))) (items (setup_cache \<lparr>max_opt = None, ttl_opt = Some 1000\<rparr> 9
            (LruCache_set ''k'' (1::nat) 0 (new_LruCache \<lparr>max_opt = Some 5, ttl_opt = Some 10\<rparr>))))
     = [(''k'', 1)]"
    by code_simp
  from setup_resets_expiry[where opts = "\<lparr>max_opt = None, ttl_opt = Some 1000\<rparr>" and now = 9
      and cache = "LruCache_set ''k'' (1::nat) 0 (new_LruCache \<lparr>max_opt = Some 5, ttl_opt = Some 10\<rparr>)"] e
  show ?thesis
    by (auto simp: new_LruCache_def Let_def defaultOptions_def)
qed

section \<open>The claims about the memoized function\<close>

text \<open>
  Claim C9 (a \<open>null\<close> result comes back as \<open>undefined\<close>). Take a memoized function and an
  argument list for which the lookup misses and the wrapped function returns \<open>null\<close>, in a
  store of capacity above zero (the default configuration, \<open>max = 100\<close> and \<open>ttl = 300000\<close>,
  is one). The first call returns \<open>null\<close>. The record it stores holds the sentinel, because
  marshalling maps \<open>null\<close> to the same sentinel as \<open>undefined\<close>. A second call with the same
  arguments, made before the record expires, finds that record, returns \<open>undefined\<close>, and
  does not call the wrapped function.
\<close>

theorem null_result_returns_undefined:
  fixes func :: "'u MemoizableFunction"
  assumes "fst (LruCache_get (fst (callKey fk args w)) now (cache w)) = None"
    and "fst (fn_body func args (user w)) = Return JNull"
    and "0 < max_cfg (options (cache w))"
    and "hasTtl (cache w) \<Longrightarrow>
           0 < ttl_cfg (options (cache w)) \<and> now' < later + ttl_cfg (options (cache w))"
  shows "fst (memoized func fk args now later w) = Return JNull
       \<and> fst (LruCache_get (fst (callKey fk args w)) now'
               (cache (snd (memoized func fk args now later w)))) = Some (ValueEntry UndefinedValue)
       \<and> marshallUndefined JNull = marshallUndefined JUndefined
       \<and> fst (memoized func fk args now' later' (snd (memoized func fk args now later w)))
           = Return JUndefined
       \<and> calls (snd (memoized func fk args now' later' (snd (memoized func fk args now later w))))
           = calls w @ [(fn_ref func, args)]"
  using memoized_twice[where later' = later', OF assms(1,2) _ _ _ assms(3,4)]
  by simp

theorem null_result_returns_undefined_witness:
  "fst (memoized \<lparr>fn_ref = 0, fn_body = returns_null\<rparr> ''fn:0'' [JBoolean True] 0 5
         (snd (memoize \<lparr>fn_ref = 0, fn_body = returns_null\<rparr> (initial_world ())))) = Return JNull
   \<and> fst (memoized \<lparr>fn_ref = 0, fn_body = returns_null\<rparr> ''fn:0'' [JBoolean True] 7 8
         (snd (memoized \<lparr>fn_ref = 0, fn_body = returns_null\<rparr> ''fn:0'' [JBoolean True] 0 5
            (snd (memoize \<lparr>fn_ref = 0, fn_body = returns_null\<rparr> (initial_world ()))))))
       = Return JUndefined"
  using null_result_returns_undefined[where func = "\<lparr>fn_ref = 0, fn_body = returns_null\<rparr>"
      and fk = "''fn:0''" and args = "[JBoolean True]" and now = 0 and later = 5 and now' = 7
      and later' = 8
      and w = "snd (memoize \<lparr>fn_ref = 0, fn_body = returns_null\<rparr> (initial_world ()))"]
  by (simp add: returns_null_def callKey_def LruCache_get_def)

text \<open>
  Claim C1 (idempotence), evaluated at the function \<open>() => null\<close> with no arguments, in the
  state of a freshly loaded module (the default configuration) and at the clock readings
  0 and 1: the first call returns \<open>null\<close>, the second returns \<open>undefined\<close>, and the wrapped
  function has been called once.
\<close>

theorem memoize_null_differs:
  "fst (memoize \<lparr>fn_ref = 0, fn_body = returns_null\<rparr> (initial_world ())) = ''fn:0''
   \<and> fst (memoized \<lparr>fn_ref = 0, fn_body = returns_null\<rparr> ''fn:0'' [] 0 0
         (snd (memoize \<lparr>fn_ref = 0, fn_body = returns_null\<rparr> (initial_world ())))) = Return JNull
   \<and> fst (memoized \<lparr>fn_ref = 0, fn_body = returns_null\<rparr> ''fn:0'' [] 1 1
         (snd (memoized \<lparr>fn_ref = 0, fn_body = returns_null\<rparr> ''fn:0'' [] 0 0
            (snd (memoize \<lparr>fn_ref = 0, fn_body = returns_null\<rparr> (initial_world ()))))))
       = Return JUndefined
   \<and> calls (snd (memoized \<lparr>fn_ref = 0, fn_body = returns_null\<rparr> ''fn:0'' [] 1 1
         (snd (memoized \<lparr>fn_ref = 0, fn_body = returns_null\<rparr> ''fn:0'' [] 0 0
            (snd (memoize \<lparr>fn_ref = 0, fn_body = returns_null\<rparr> (initial_world ()))))))) = [(0, [])]"
proof -
  let ?f = "\<lparr>fn_ref = 0, fn_body = returns_null\<rparr>"
  let ?w = "snd (memoize ?f (initial_world ()))"
  have miss: "fst (LruCache_get (fst (callKey ''fn:0'' [] ?w)) 0 (cache ?w)) = None"
    by (simp add: LruCache_get_def)
  have body: "fst (fn_body ?f [] (user ?w)) = Return JNull"
    by (simp add: returns_null_def)
  have cap: "0 < max_cfg (options (cache ?w))"
    by simp
  have ttl: "0 < ttl_cfg (options (cache ?w)) \<and> 1 < 0 + ttl_cfg (options (cache ?w))"
    by simp
  from memoized_twice[where later' = 1, OF miss body _ _ _ cap ttl]
  show ?thesis by (simp add: memoize_initial)
qed

text \<open>
  Claim C7 (synchronous throw), as amended. Take a call whose lookup misses and whose
  wrapped function throws. The memoized function throws the same value and writes
  nothing after the wrapped function has thrown: the state after the call is the state
  the wrapped function left. Before the wrapped function starts, the memoized function
  has done to the store what the lookup does and no more: the store is as it was before
  the call when it held no record under the key, and otherwise (the record there had
  expired) it is the store with that record deleted; no record is under the key. When
  the wrapped function does not call into the module, so that it changes the state of the
  calling program only, the store after the call is that store: no record is under the
  key, the unexpired records of a store that holds every key once are the same before and
  after, the wrapped function has been called once, and a later call with the same
  arguments calls it again.
\<close>

theorem sync_throw_store:
  fixes func :: "'u ModuleFunction"
  assumes "fst (LruCache_get (fst (callKey fk args w)) now (cache w)) = None"
    and "fst (mf_body func args (call_start func fk args now w)) = Throw e"
  shows "fst (memoized_reentrant func fk args now later w) = Throw e
       \<and> snd (memoized_reentrant func fk args now later w)
           = snd (mf_body func args (call_start func fk args now w))
       \<and> cache (call_start func fk args now w) =
           (case map_of (items (cache w)) (fst (callKey fk args w)) of
              None \<Rightarrow> cache w
            | Some entry \<Rightarrow>
                (cache w)\<lparr>items := AList.delete (fst (callKey fk args w)) (items (cache w))\<rparr>)
       \<and> map_of (items (cache (call_start func fk args now w))) (fst (callKey fk args w)) = None
       \<and> ((\<forall>a w'. snd (mf_body func a w') = w'\<lparr>user := user (snd (mf_body func a w'))\<rparr>) \<longrightarrow>
            cache (snd (memoized_reentrant func fk args now later w)) =
              (case map_of (items (cache w)) (fst (callKey fk args w)) of
                 None \<Rightarrow> cache w
               | Some entry \<Rightarrow>
                   (cache w)\<lparr>items := AList.delete (fst (callKey fk args w)) (items (cache w))\<rparr>)
          \<and> map_of (items (cache (snd (memoized_reentrant func fk args now later w))))
                (fst (callKey fk args w)) = None
          \<and> (distinct (map fst (items (cache w))) \<longrightarrow>
                live_items now (cache (snd (memoized_reentrant func fk args now later w)))
                  = live_items now (cache w))
          \<and> calls (snd (memoized_reentrant func fk args now later w))
              = calls w @ [(mf_ref func, args)]
          \<and> calls (snd (memoized_reentrant func fk args now' later'
                          (snd (memoized_reentrant func fk args now later w))))
              = calls w @ [(mf_ref func, args), (mf_ref func, args)])"
proof -
  let ?key = "fst (callKey fk args w)"
  let ?start = "call_start func fk args now w"
  let ?after = "snd (memoized_reentrant func fk args now later w)"
  let ?left = "case map_of (items (cache w)) ?key of
                 None \<Rightarrow> cache w
               | Some entry \<Rightarrow> (cache w)\<lparr>items := AList.delete ?key (items (cache w))\<rparr>"
  note first = memoized_reentrant_miss_throw[OF assms, of later]
  have p1: "fst (memoized_reentrant func fk args now later w) = Throw e" by (simp add: first)
  have p2: "?after = snd (mf_body func args ?start)" by (simp add: first)
  have p3: "cache ?start = ?left"
    using get_miss_store[OF assms(1)] by simp
  have p4: "map_of (items (cache ?start)) ?key = None"
    using get_None_absent[OF assms(1)] by simp
  have live: "live_items now (cache ?start) = live_items now (cache w)"
    if d: "distinct (map fst (items (cache w)))"
  proof (cases "map_of (items (cache w)) ?key")
    case None
    then show ?thesis by (simp add: p3 del: call_start_simps)
  next
    case (Some entry)
    with assms(1) have ex: "hasTtl (cache w)" "isExpired entry now"
      by (auto simp: LruCache_get_def split: if_splits)
    have "snd p = entry" if "p \<in> set (items (cache w))" "fst p = ?key" for p
    proof -
      from that have "(?key, snd p) \<in> set (items (cache w))" by (metis prod.collapse)
      with d have "map_of (items (cache w)) ?key = Some (snd p)" by (rule map_of_is_SomeI)
      with Some show ?thesis by simp
    qed
    then have "filter (\<lambda>p. \<not> (hasTtl (cache w) \<and> isExpired (snd p) now))
                 (AList.delete ?key (items (cache w)))
               = filter (\<lambda>p. \<not> (hasTtl (cache w) \<and> isExpired (snd p) now)) (items (cache w))"
      unfolding AList.delete_eq filter_filter using ex by (intro filter_cong) auto
    then show ?thesis
      by (simp add: p3 Some live_items_def del: call_start_simps)
  qed
  have rest: "cache ?after = ?left
          \<and> map_of (items (cache ?after)) ?key = None
          \<and> (distinct (map fst (items (cache w))) \<longrightarrow>
                live_items now (cache ?after) = live_items now (cache w))
          \<and> calls ?after = calls w @ [(mf_ref func, args)]
          \<and> calls (snd (memoized_reentrant func fk args now' later' ?after))
              = calls w @ [(mf_ref func, args), (mf_ref func, args)]"
    if keeps: "\<forall>a w'. snd (mf_body func a w') = w'\<lparr>user := user (snd (mf_body func a w'))\<rparr>"
  proof -
    from keeps have k: "snd (mf_body func a w') = w'\<lparr>user := user (snd (mf_body func a w'))\<rparr>"
      for a w' by blast
    have after: "?after = ?start\<lparr>user := user (snd (mf_body func args ?start))\<rparr>"
      unfolding p2 by (rule k)
    have ca: "cache ?after = cache ?start" by (subst after) simp
    have q1: "cache ?after = ?left" unfolding ca by (rule p3)
    have q2: "map_of (items (cache ?after)) ?key = None" unfolding ca by (rule p4)
    have q3: "distinct (map fst (items (cache w))) \<longrightarrow>
                live_items now (cache ?after) = live_items now (cache w)"
      unfolding ca using live by blast
    have q4: "calls ?after = calls w @ [(mf_ref func, args)]"
      by (subst after) simp
    have reg: "same_registry (snd (callKey fk args w)) ?after"
      by (subst after) simp
    have key: "callKey fk args ?after = (?key, ?after)" by (rule callKey_stable[OF reg])
    have miss2: "fst (LruCache_get (fst (callKey fk args ?after)) now' (cache ?after)) = None"
      by (simp add: key get_absent[OF q2])
    have keep2: "calls (snd (mf_body func args (call_start func fk args now' ?after)))
                   = calls (call_start func fk args now' ?after)"
      by (subst k) simp
    have q5: "calls (snd (memoized_reentrant func fk args now' later' ?after))
                = calls w @ [(mf_ref func, args), (mf_ref func, args)]"
      using memoized_reentrant_miss_calls[OF miss2 keep2, of later'] q4 by simp
    from q1 q2 q3 q4 q5 show ?thesis by blast
  qed
  from p1 p2 p3 p4 rest show ?thesis by blast
qed

lemma as_module_function_keeps:
  "snd (mf_body (as_module_function func) a w')
     = w'\<lparr>user := user (snd (mf_body (as_module_function func) a w'))\<rparr>"
  by (simp add: as_module_function_def)

theorem sync_throw_store_witness:
  "fst (memoized_reentrant (as_module_function \<lparr>fn_ref = 0, fn_body = succeeds_once\<rparr>)
          ''fn:0'' [] 300000 300001
         (snd (memoized_reentrant (as_module_function \<lparr>fn_ref = 0, fn_body = succeeds_once\<rparr>)
                 ''fn:0'' [] 0 0
            (snd (memoize \<lparr>fn_ref = 0, fn_body = succeeds_once\<rparr> (initial_world 0))))))
       = Throw (JString ''boom'')
   \<and> items (cache (snd (memoized_reentrant
          (as_module_function \<lparr>fn_ref = 0, fn_body = succeeds_once\<rparr>) ''fn:0'' [] 300000 300001
         (snd (memoized_reentrant (as_module_function \<lparr>fn_ref = 0, fn_body = succeeds_once\<rparr>)
                 ''fn:0'' [] 0 0
            (snd (memoize \<lparr>fn_ref = 0, fn_body = succeeds_once\<rparr> (initial_world 0))))))))
       = []
   \<and> live_items 300000 (cache
         (snd (memoized_reentrant (as_module_function \<lparr>fn_ref = 0, fn_body = succeeds_once\<rparr>)
                 ''fn:0'' [] 0 0
            (snd (memoize \<lparr>fn_ref = 0, fn_body = succeeds_once\<rparr> (initial_world 0))))))
       = []
   \<and> calls (snd (memoized_reentrant
          (as_module_function \<lparr>fn_ref = 0, fn_body = succeeds_once\<rparr>) ''fn:0'' [] 300002 300003
         (snd (memoized_reentrant
            (as_module_function \<lparr>fn_ref = 0, fn_body = succeeds_once\<rparr>) ''fn:0'' [] 300000 300001
           (snd (memoized_reentrant (as_module_function \<lparr>fn_ref = 0, fn_body = succeeds_once\<rparr>)
                   ''fn:0'' [] 0 0
              (snd (memoize \<lparr>fn_ref = 0, fn_body = succeeds_once\<rparr> (initial_world 0)))))))))
       = [(0, []), (0, []), (0, [])]"
proof -
  let ?f = "\<lparr>fn_ref = 0, fn_body = succeeds_once\<rparr>"
  let ?g = "as_module_function ?f"
  let ?w2 = "snd (memoized_reentrant ?g ''fn:0'' [] 0 0 (snd (memoize ?f (initial_world 0))))"
  have w2: "?w2 = snd (memoized ?f ''fn:0'' [] 0 0 (snd (memoize ?f (initial_world 0))))"
    by (simp add: memoized_as_reentrant)
  have miss: "fst (LruCache_get (fst (callKey ''fn:0'' [] ?w2)) 300000 (cache ?w2)) = None"
    unfolding w2 by (simp add: succeeds_once_first_call LruCache_get_def isExpired_def)
  have throws: "fst (mf_body ?g [] (call_start ?g ''fn:0'' [] 300000 ?w2)) = Throw (JString ''boom'')"
    unfolding w2 by (simp add: succeeds_once_first_call succeeds_once_def as_module_function_def)
  have keeps: "\<forall>a w'. snd (mf_body ?g a w') = w'\<lparr>user := user (snd (mf_body ?g a w'))\<rparr>"
    using as_module_function_keeps[of ?f] by blast
  have d: "distinct (map fst (items (cache ?w2)))"
    unfolding w2 by (simp add: succeeds_once_first_call)
  have l: "live_items 300000 (cache ?w2) = []"
    unfolding w2 by (simp add: succeeds_once_first_call live_items_def isExpired_def)
  have c: "calls ?w2 = [(0, [])]" unfolding w2 by (simp add: succeeds_once_first_call)
  have i: "items (cache ?w2) =
             [(''fn:0'', \<lparr>wrapped_value = ValueEntry (Plain (JNumber (OtherNumber ''1''))),
                            expiresAt = Some 300000\<rparr>)]"
    unfolding w2 by (simp add: succeeds_once_first_call)
  have r: "mf_ref ?g = 0" by (simp add: as_module_function_def)
  note inst = sync_throw_store[OF miss throws, where later = 300001 and now' = 300002
      and later' = 300003]
  note thrown = inst[THEN conjunct1]
  note kept = inst[THEN conjunct2, THEN conjunct2, THEN conjunct2, THEN conjunct2, THEN mp, OF keeps]
  from thrown kept d l c i r
  show ?thesis by simp
qed

text \<open>
  Claim C7 as stated says that the store is exactly as it was before the call, that no
  record is created, and that a later identical call calls the function again, for every
  wrapped function. Two calls show otherwise.
  \<^item> The key holds an expired record. The first call of a function, at clock 0, stores a
    record that expires at 300000; the second call, at 300000, misses, the function
    throws, and the lookup has deleted the record: the store is not as it was.
  \<^item> The wrapped function calls another memoized function before it throws:
    \<open>g = x => { mh(x); throw 'boom' }\<close>. In the empty store of a freshly loaded module,
    the call \<open>mg(6)\<close> misses, throws, and leaves the record of \<open>mh(6)\<close> in the store.
\<close>

theorem sync_throw_store_counterexample:
  "fst (LruCache_get ''fn:0'' 300000
         (cache (snd (memoized_reentrant (as_module_function \<lparr>fn_ref = 0, fn_body = succeeds_once\<rparr>)
                        ''fn:0'' [] 0 0
            (snd (memoize \<lparr>fn_ref = 0, fn_body = succeeds_once\<rparr> (initial_world 0))))))) = None
   \<and> fst (memoized_reentrant (as_module_function \<lparr>fn_ref = 0, fn_body = succeeds_once\<rparr>)
            ''fn:0'' [] 300000 300000
         (snd (memoized_reentrant (as_module_function \<lparr>fn_ref = 0, fn_body = succeeds_once\<rparr>)
                 ''fn:0'' [] 0 0
            (snd (memoize \<lparr>fn_ref = 0, fn_body = succeeds_once\<rparr> (initial_world 0))))))
       = Throw (JString ''boom'')
   \<and> cache (snd (memoized_reentrant (as_module_function \<lparr>fn_ref = 0, fn_body = succeeds_once\<rparr>)
            ''fn:0'' [] 300000 300000
         (snd (memoized_reentrant (as_module_function \<lparr>fn_ref = 0, fn_body = succeeds_once\<rparr>)
                 ''fn:0'' [] 0 0
            (snd (memoize \<lparr>fn_ref = 0, fn_body = succeeds_once\<rparr> (initial_world 0)))))))
       \<noteq> cache (snd (memoized_reentrant (as_module_function \<lparr>fn_ref = 0, fn_body = succeeds_once\<rparr>)
                 ''fn:0'' [] 0 0
            (snd (memoize \<lparr>fn_ref = 0, fn_body = succeeds_once\<rparr> (initial_world 0)))))
   \<and> fst (LruCache_get ''fn:0|n:6'' 0
         (cache (snd (idForFunction 1 (snd (idForFunction 0 (initial_world ()))))))) = None
   \<and> items (cache (snd (idForFunction 1 (snd (idForFunction 0 (initial_world ())))))) = []
   \<and> fst (memoized_reentrant \<lparr>mf_ref = 0, mf_body = calls_then_throws\<rparr> ''fn:0''
            [JNumber (OtherNumber ''6'')] 0 2
            (snd (idForFunction 1 (snd (idForFunction 0 (initial_world ()))))))
       = Throw (JString ''boom'')
   \<and> items (cache (snd (memoized_reentrant \<lparr>mf_ref = 0, mf_body = calls_then_throws\<rparr> ''fn:0''
            [JNumber (OtherNumber ''6'')] 0 2
            (snd (idForFunction 1 (snd (idForFunction 0 (initial_world ()))))))))
       = [(''fn:1|n:6'', \<lparr>wrapped_value = ValueEntry (Plain (JNumber (OtherNumber ''1''))),
                            expiresAt = Some 300001\<rparr>)]"
proof -
  let ?f = "\<lparr>fn_ref = 0, fn_body = succeeds_once\<rparr>"
  let ?w2 = "snd (memoized ?f ''fn:0'' [] 0 0 (snd (memoize ?f (initial_world 0))))"
  have miss: "fst (LruCache_get (fst (callKey ''fn:0'' [] ?w2)) 300000 (cache ?w2)) = None"
    by (simp add: succeeds_once_first_call LruCache_get_def isExpired_def)
  have throws: "fst (fn_body ?f [] (user ?w2)) = Throw (JString ''boom'')"
    by (simp add: succeeds_once_first_call succeeds_once_def)
  have "items (cache (snd (memoized ?f ''fn:0'' [] 300000 300000 ?w2))) = []"
    unfolding memoized_miss_throw[OF miss throws]
    by (simp add: succeeds_once_first_call LruCache_get_def isExpired_def)
  moreover have "items (cache ?w2) \<noteq> []"
    by (simp add: succeeds_once_first_call)
  ultimately have ne: "cache (snd (memoized ?f ''fn:0'' [] 300000 300000 ?w2)) \<noteq> cache ?w2"
    by metis
  have th: "fst (memoized ?f ''fn:0'' [] 300000 300000 ?w2) = Throw (JString ''boom'')"
    unfolding memoized_miss_throw[OF miss throws] by simp
  have part1: "fst (LruCache_get ''fn:0'' 300000 (cache ?w2)) = None
     \<and> fst (memoized ?f ''fn:0'' [] 300000 300000 ?w2) = Throw (JString ''boom'')
     \<and> cache (snd (memoized ?f ''fn:0'' [] 300000 300000 ?w2)) \<noteq> cache ?w2"
    using miss th ne by simp
  define w0 :: "unit world"
    where "w0 = snd (idForFunction 1 (snd (idForFunction 0 (initial_world ()))))"
  let ?g = "\<lparr>mf_ref = 0, mf_body = calls_then_throws\<rparr>"
  let ?h = "\<lparr>mf_ref = 1, mf_body = returns_one\<rparr>"
  let ?a = "[JNumber (OtherNumber ''6'')]"
  have c0: "cache w0 = new_LruCache \<lparr>max_opt = Some 100, ttl_opt = Some 300000\<rparr>"
    by (simp add: w0_def)
  have e0: "items (cache w0) = []" by (simp add: c0)
  have kg: "fst (callKey ''fn:0'' ?a w0) = ''fn:0|n:6''" by (simp add: callKey_def)
  have missg: "fst (LruCache_get (fst (callKey ''fn:0'' ?a w0)) 0 (cache w0)) = None"
    by (simp add: kg c0 LruCache_get_def)
  define s where "s = call_start ?g ''fn:0'' ?a 0 w0"
  have cs: "cache s = new_LruCache \<lparr>max_opt = Some 100, ttl_opt = Some 300000\<rparr>"
    by (simp add: s_def kg c0 LruCache_get_def)
  have kh: "fst (callKey ''fn:1'' ?a s) = ''fn:1|n:6''" by (simp add: callKey_def)
  have missh: "fst (LruCache_get (fst (callKey ''fn:1'' ?a s)) 1 (cache s)) = None"
    by (simp add: kh cs LruCache_get_def)
  have set: "LruCache_set ''fn:1|n:6'' (ValueEntry (Plain (JNumber (OtherNumber ''1'')))) 1
               (new_LruCache \<lparr>max_opt = Some 100, ttl_opt = Some 300000\<rparr>)
             = \<lparr>options = \<lparr>max_cfg = 100, ttl_cfg = 300000\<rparr>,
                items = [(''fn:1|n:6'', \<lparr>wrapped_value = ValueEntry (Plain (JNumber (OtherNumber ''1''))),
                                          expiresAt = Some 300001\<rparr>)],
                hasTtl = True\<rparr>"
    by (simp add: LruCache_set_def evictOverflow_def pruneExpired_def isExpired_def
          new_LruCache_def defaultOptions_def Let_def)
  have inner: "cache (snd (memoized_reentrant ?h ''fn:1'' ?a 1 1 s))
                 = \<lparr>options = \<lparr>max_cfg = 100, ttl_cfg = 300000\<rparr>,
                    items = [(''fn:1|n:6'', \<lparr>wrapped_value = ValueEntry (Plain (JNumber (OtherNumber ''1''))),
                                              expiresAt = Some 300001\<rparr>)],
                    hasTtl = True\<rparr>"
    unfolding memoized_reentrant_miss[OF missh]
    by (simp add: returns_one_def cacheSyncResult_def Let_def kh cs LruCache_get_def set)
  have throwsg: "fst (mf_body ?g ?a (call_start ?g ''fn:0'' ?a 0 w0)) = Throw (JString ''boom'')"
    by (simp add: calls_then_throws_def)
  have outer: "memoized_reentrant ?g ''fn:0'' ?a 0 2 w0
                 = (Throw (JString ''boom''), snd (memoized_reentrant ?h ''fn:1'' ?a 1 1 s))"
    unfolding memoized_reentrant_miss_throw[OF missg throwsg] s_def
    by (simp add: calls_then_throws_def)
  have part2: "fst (memoized_reentrant ?g ''fn:0'' ?a 0 2 w0) = Throw (JString ''boom'')
     \<and> items (cache (snd (memoized_reentrant ?g ''fn:0'' ?a 0 2 w0)))
         = [(''fn:1|n:6'', \<lparr>wrapped_value = ValueEntry (Plain (JNumber (OtherNumber ''1''))),
                              expiresAt = Some 300001\<rparr>)]"
    using inner by (simp add: outer)
  have m0: "fst (LruCache_get ''fn:0|n:6'' 0 (cache w0)) = None"
    by (simp add: c0 LruCache_get_def)
  from part1 part2[unfolded w0_def] m0[unfolded w0_def] e0[unfolded w0_def] show ?thesis
    by (simp add: memoized_as_reentrant)
qed



text \<open>
  Claim C3 (deferred failure eviction). Take a state in which the promise \<open>n\<close> created by a
  memoized call still awaits the promise the wrapped function returned, under the key of
  that call. When the awaited promise rejects with \<open>e\<close>, the continuation deletes the
  record under the key and rejects \<open>n\<close> with \<open>e\<close>, so a caller holding a promise resolved
  with \<open>n\<close> gets the rejection \<open>e\<close>. A call with the same arguments made next misses and
  calls the wrapped function again.
\<close>

theorem deferred_failure_eviction:
  fixes func :: "'u MemoizableFunction"
  assumes "promises w n = Some (Awaiting p key)"
    and "callKey fk args w = (key, w)"
  shows "map_of (items (cache (resume n (Inl e) w))) key = None
       \<and> promises (resume n (Inl e) w) n = Some (Rejected e)
       \<and> (promises w m = Some (Adopting n) \<longrightarrow>
            resolution (resume n (Inl e) w) (JLibraryPromise m) = Some (Rejected e))
       \<and> fst (LruCache_get key now (cache (resume n (Inl e) w))) = None
       \<and> calls (snd (memoized func fk args now later (resume n (Inl e) w)))
           = calls w @ [(fn_ref func, args)]"
proof -
  let ?w' = "resume n (Inl e) w"
  have r: "?w' = w\<lparr>cache := snd (LruCache_delete key (cache w)),
                    promises := (promises w)(n \<mapsto> Rejected e)\<rparr>"
    using assms(1) by (simp add: resume_def)
  have p1: "map_of (items (cache ?w')) key = None"
    by (simp add: r LruCache_delete_def AList.delete_conv')
  have p2: "promises ?w' n = Some (Rejected e)" by (simp add: r)
  have p3: "resolution ?w' (JLibraryPromise m) = Some (Rejected e)"
    if "promises w m = Some (Adopting n)"
  proof -
    from that assms(1) have "m \<noteq> n" by auto
    with that show ?thesis by (simp add: r)
  qed
  have p4: "fst (LruCache_get key now (cache ?w')) = None"
    by (simp add: get_absent[OF p1])
  have key: "callKey fk args ?w' = (key, ?w')"
    using callKey_stable[of fk args w ?w'] by (simp add: assms(2) r)
  have miss: "fst (LruCache_get (fst (callKey fk args ?w')) now (cache ?w')) = None"
    by (simp add: key p4)
  have p5: "calls (snd (memoized func fk args now later ?w')) = calls w @ [(fn_ref func, args)]"
    using memoized_miss_calls[OF miss, of func later] by (simp add: r)
  from p1 p2 p3 p4 p5 show ?thesis by blast
qed

theorem deferred_failure_eviction_witness:
  "map_of (items (cache (resume 0 (Inl (JString ''boom''))
       (snd (memoized \<lparr>fn_ref = 0, fn_body = returns_promise\<rparr> ''fn:0'' [JNull] 0 2
          (snd (memoize \<lparr>fn_ref = 0, fn_body = returns_promise\<rparr> (initial_world 0)))))))) ''fn:0|null''
     = None
   \<and> resolution (resume 0 (Inl (JString ''boom''))
       (snd (memoized \<lparr>fn_ref = 0, fn_body = returns_promise\<rparr> ''fn:0'' [JNull] 0 2
          (snd (memoize \<lparr>fn_ref = 0, fn_body = returns_promise\<rparr> (initial_world 0))))))
       (JLibraryPromise 1) = Some (Rejected (JString ''boom''))
   \<and> calls (snd (memoized \<lparr>fn_ref = 0, fn_body = returns_promise\<rparr> ''fn:0'' [JNull] 6 6
       (resume 0 (Inl (JString ''boom''))
         (snd (memoized \<lparr>fn_ref = 0, fn_body = returns_promise\<rparr> ''fn:0'' [JNull] 0 2
            (snd (memoize \<lparr>fn_ref = 0, fn_body = returns_promise\<rparr> (initial_world 0))))))))
     = [(0, [JNull]), (0, [JNull])]"
proof -
  let ?f = "\<lparr>fn_ref = 0, fn_body = returns_promise\<rparr>"
  let ?p = "JObject 0 \<lparr>callableThen = True, callableNext = False,
                         hasIterator = False, hasAsyncIterator = False\<rparr>"
  let ?w1 = "snd (memoized ?f ''fn:0'' [JNull] 0 2 (snd (memoize ?f (initial_world 0))))"
  have a: "promises ?w1 0 = Some (Awaiting ?p ''fn:0|null'')"
    by (simp add: returns_promise_first_call)
  have k: "callKey ''fn:0'' [JNull] ?w1 = (''fn:0|null'', ?w1)"
    by (simp add: callKey_def)
  have b: "promises ?w1 1 = Some (Adopting 0)"
    by (simp add: returns_promise_first_call)
  have c: "calls ?w1 = [(0, [JNull])]"
    by (simp add: returns_promise_first_call)
  from deferred_failure_eviction[OF a k, where m = 1 and e = "JString ''boom''" and func = ?f
      and now = 6 and later = 6] b c
  show ?thesis by simp
qed

text \<open>
  Claim C5 (the delimiter in encodings), evaluated at the string \<open>a|b\<close>: the string contains
  the delimiter, so it is encoded through \<open>JSON.stringify\<close>, which leaves the delimiter as
  it is; the encoding is \<open>s:"a|b"\<close>. As a consequence two different argument lists get the
  same key: the two strings \<open>"a\<close> and \<open>b"\<close>, and the single string \<open>a|s:b\<close>.
\<close>

theorem string_encoding_keeps_delimiter:
  "fst (serializeArgument (JString ''a|b'') w) = ''s:'' @ [CHR 0x22] @ ''a|b'' @ [CHR 0x22]
   \<and> CHR ''|'' \<in> set (fst (serializeArgument (JString ''a|b'') w))
   \<and> JString [CHR 0x22, CHR ''a''] \<noteq> JString ''a|s:b''
   \<and> fst (callKey ''fn:0'' [JString [CHR 0x22, CHR ''a''], JString [CHR ''b'', CHR 0x22]] w)
       = fst (callKey ''fn:0'' [JString ''a|s:b''] w)"
  by (simp add: JSON_stringify_def quote_unit_def callKey_def)

text \<open>
  Claim C8 (reconfiguration). \<open>setup(config)\<close> installs a new store whose \<open>max\<close> and \<open>ttl\<close>
  are those of \<open>config\<close>, with 100 and 300000 for the fields \<open>config\<close> does not have. When
  the old store holds \<open>K\<close> unexpired records and \<open>K\<close> is at most the new \<open>max\<close>, the new store
  holds the keys and payloads of exactly those records, in the same order, and
  \<open>getCacheStats\<close> reports the size \<open>K\<close>. A memoized call whose key is the key of one of
  those records, made before the migrated record expires, returns the result cached for
  that record and calls no function.
\<close>

theorem setup_migrates:
  fixes w :: "'u world"
  assumes "distinct (map fst (items (cache w)))"
    and "int (length (live_items now (cache w)))
           \<le> (case max_opt opts of None \<Rightarrow> 100 | Some m \<Rightarrow> m)"
  shows "options (cache (setup_world opts now w)) =
           \<lparr>max_cfg = (case max_opt opts of None \<Rightarrow> 100 | Some m \<Rightarrow> m),
            ttl_cfg = (case ttl_opt opts of None \<Rightarrow> 300000 | Some t \<Rightarrow> t)\<rparr>
       \<and> map (\<lambda>p. (fst p, wrapped_value (snd p))) (items (cache (setup_world opts now w)))
           = map (\<lambda>p. (fst p, wrapped_value (snd p))) (live_items now (cache w))
       \<and> fst (getCacheStats now (setup_world opts now w))
           = (length (live_items now (cache w)), case max_opt opts of None \<Rightarrow> 100 | Some m \<Rightarrow> m)
       \<and> (\<forall>p \<in> set (live_items now (cache w)).
             fst (callKey fk args (setup_world opts now w)) = fst p
             \<and> (0 < (case ttl_opt opts of None \<Rightarrow> 300000 | Some t \<Rightarrow> t) \<longrightarrow>
                  now' < now + (case ttl_opt opts of None \<Rightarrow> 300000 | Some t \<Rightarrow> t))
             \<longrightarrow> fst (memoized func fk args now' later' (setup_world opts now w))
                   = Return (cached_result (wrapped_value (snd p)))
                 \<and> calls (snd (memoized func fk args now' later' (setup_world opts now w))) = calls w
                 \<and> user (snd (memoized func fk args now' later' (setup_world opts now w))) = user w)"
proof -
  let ?new = "new_LruCache opts :: CacheEntry LruCache"
  let ?w' = "setup_world opts now w"
  let ?c' = "setup_cache opts now (cache w)"
  let ?T = "case ttl_opt opts of None \<Rightarrow> 300000 | Some t \<Rightarrow> t"
  have cw: "cache ?w' = ?c'" by (simp add: setup_world_def)
  have cap: "int (length (live_items now (cache w))) \<le> max_cfg (options ?new)"
    using assms(2) by simp
  note its = setup_cache_items[OF assms(1) cap]
  have p1: "options (cache ?w') =
           \<lparr>max_cfg = (case max_opt opts of None \<Rightarrow> 100 | Some m \<Rightarrow> m), ttl_cfg = ?T\<rparr>"
    by (simp add: cw)
  have p2: "map (\<lambda>p. (fst p, wrapped_value (snd p))) (items (cache ?w'))
           = map (\<lambda>p. (fst p, wrapped_value (snd p))) (live_items now (cache w))"
    by (simp add: cw its comp_def record_of_def)
  have fresh: "\<forall>p \<in> set (items ?c'). \<not> isExpired (snd p) now"
    by (auto simp: its record_of_def isExpired_def)
  have p3: "fst (getCacheStats now ?w')
           = (length (live_items now (cache w)), case max_opt opts of None \<Rightarrow> 100 | Some m \<Rightarrow> m)"
    using pruneExpired_none[OF fresh]
    by (simp add: getCacheStats_def LruCache_size_def LruCache_max_def cw Let_def its)
  have dist: "distinct (map fst (items ?c'))"
    using assms(1) by (simp add: its comp_def live_items_def distinct_map_filter)
  have p4: "fst (memoized func fk args now' later' ?w') = Return (cached_result (wrapped_value (snd p)))
          \<and> calls (snd (memoized func fk args now' later' ?w')) = calls w
          \<and> user (snd (memoized func fk args now' later' ?w')) = user w"
    if "p \<in> set (live_items now (cache w))" "fst (callKey fk args ?w') = fst p"
       "0 < ?T \<longrightarrow> now' < now + ?T" for p
  proof -
    let ?r = "record_of ?new (fst p, wrapped_value (snd p), now)"
    from that(1) have "?r \<in> set (items ?c')" by (simp add: its)
    then have "(fst p, snd ?r) \<in> set (items ?c')" by (simp add: record_of_def)
    with dist have m: "map_of (items ?c') (fst p) = Some (snd ?r)" by (rule map_of_is_SomeI)
    have live: "\<not> (hasTtl ?c' \<and> isExpired (snd ?r) now')"
      using that(3) by (auto simp: record_of_def isExpired_def)
    from get_live_record[OF m live]
    have "fst (LruCache_get (fst (callKey fk args ?w')) now' (cache ?w')) = Some (wrapped_value (snd p))"
      by (simp add: that(2) cw record_of_def)
    from memoized_hit[OF this, of func later'] show ?thesis
      by (simp add: callKey_frame) (simp add: setup_world_def)
  qed
  from p1 p2 p3 p4 show ?thesis by blast
qed


theorem setup_migrates_witness:
  "options (cache (setup_world \<lparr>max_opt = Some 50, ttl_opt = None\<rparr> 10
      (snd (memoized \<lparr>fn_ref = 0, fn_body = succeeds_once\<rparr> ''fn:0'' [] 0 0
         (snd (memoize \<lparr>fn_ref = 0, fn_body = succeeds_once\<rparr> (initial_world 0)))))))
     = \<lparr>max_cfg = 50, ttl_cfg = 300000\<rparr>
   \<and> fst (getCacheStats 10 (setup_world \<lparr>max_opt = Some 50, ttl_opt = None\<rparr> 10
      (snd (memoized \<lparr>fn_ref = 0, fn_body = succeeds_once\<rparr> ''fn:0'' [] 0 0
         (snd (memoize \<lparr>fn_ref = 0, fn_body = succeeds_once\<rparr> (initial_world 0)))))))
     = (1, 50)
   \<and> fst (memoized \<lparr>fn_ref = 0, fn_body = succeeds_once\<rparr> ''fn:0'' [] 20 20
        (setup_world \<lparr>max_opt = Some 50, ttl_opt = None\<rparr> 10
          (snd (memoized \<lparr>fn_ref = 0, fn_body = succeeds_once\<rparr> ''fn:0'' [] 0 0
             (snd (memoize \<lparr>fn_ref = 0, fn_body = succeeds_once\<rparr> (initial_world 0)))))))
     = Return (JNumber (OtherNumber ''1''))
   \<and> calls (snd (memoized \<lparr>fn_ref = 0, fn_body = succeeds_once\<rparr> ''fn:0'' [] 20 20
        (setup_world \<lparr>max_opt = Some 50, ttl_opt = None\<rparr> 10
          (snd (memoized \<lparr>fn_ref = 0, fn_body = succeeds_once\<rparr> ''fn:0'' [] 0 0
             (snd (memoize \<lparr>fn_ref = 0, fn_body = succeeds_once\<rparr> (initial_world 0))))))))
     = [(0, [])]"
proof -
  let ?f = "\<lparr>fn_ref = 0, fn_body = succeeds_once\<rparr>"
  let ?w2 = "snd (memoized ?f ''fn:0'' [] 0 0 (snd (memoize ?f (initial_world 0))))"
  have l: "live_items 10 (cache ?w2)
             = [(''fn:0'', \<lparr>wrapped_value = ValueEntry (Plain (JNumber (OtherNumber ''1''))),
                             expiresAt = Some 300000\<rparr>)]"
    by (simp add: succeeds_once_first_call live_items_def isExpired_def)
  have d: "distinct (map fst (items (cache ?w2)))"
    by (simp add: succeeds_once_first_call)
  have c: "int (length (live_items 10 (cache ?w2)))
             \<le> (case max_opt \<lparr>max_opt = Some 50, ttl_opt = None\<rparr> of None \<Rightarrow> 100 | Some m \<Rightarrow> m)"
    by (simp add: l)
  have cs: "calls ?w2 = [(0, [])]" by (simp add: succeeds_once_first_call)
  from setup_migrates[OF d c, where fk = "''fn:0''" and args = "[]" and now' = 20 and later' = 20
      and func = ?f] cs
  show ?thesis by (simp add: l)
qed

end
